theory Spec2Isabelle
  imports Main "HOL-Library.Monad_Syntax"
begin

section \<open>The data model of psy.py\<close>

text \<open>
  A state of the cell and both halves of a rule are values of Python's
  \<^verbatim>\<open>collections.Counter\<close>: a dictionary from symbols to integer counts in which a
  missing key reads as 0. A counter is modelled by the function that reads it. The
  counts are integers, as in Python, so that "no count is negative" is a property to
  prove and not a consequence of the type. A character is a code point below 256.

  Every counter of the program is built by \<^verbatim>\<open>Counter(list)\<close>, \<^verbatim>\<open>Counter()\<close>,
  \<^verbatim>\<open>-\<close>, \<^verbatim>\<open>+\<close>, \<^verbatim>\<open>-=\<close> or \<^verbatim>\<open>+=\<close>; none of them stores a key with a count
  below 1, so two counters are equal as dictionaries exactly when they read the same
  at every key.
\<close>

type_synonym counter = "char \<Rightarrow> int"

text \<open>\<^verbatim>\<open>Counter(xs)\<close>: the number of occurrences of each element of the list.\<close>

definition Counter :: "string \<Rightarrow> counter" where
  "Counter xs = (\<lambda>k. int (count_list xs k))"

text \<open>\<^verbatim>\<open>Counter()\<close>.\<close>

definition empty_counter :: counter where
  "empty_counter = (\<lambda>k. 0)"

text \<open>
  \<^verbatim>\<open>a - b\<close> and \<^verbatim>\<open>a -= b\<close>: the counts are subtracted and only the positive
  results are kept. \<^verbatim>\<open>a + b\<close> and \<^verbatim>\<open>a += b\<close>: the counts are added and only the
  positive results are kept.
\<close>

definition counter_sub :: "counter \<Rightarrow> counter \<Rightarrow> counter" where
  "counter_sub a b = (\<lambda>k. max 0 (a k - b k))"

definition counter_add :: "counter \<Rightarrow> counter \<Rightarrow> counter" where
  "counter_add a b = (\<lambda>k. max 0 (a k + b k))"

text \<open>A rule is the pair (outgoing, incoming).\<close>

type_synonym rule = "counter \<times> counter"

record opts =
  verbose :: bool
  detect_loops :: bool

text \<open>
  What \<^verbatim>\<open>run\<close> prints when \<^verbatim>\<open>opts.verbose\<close> is set: \<^verbatim>\<open>print(state)\<close> at the
  head of each pass and \<^verbatim>\<open>print(" ", outgoing, "->", incoming)\<close> at each
  application of a rule.
\<close>

datatype event = PrintState counter | PrintRule counter counter

text \<open>
  The exceptions of the program:
  \<^verbatim>\<open>Exception("Found increasing sequence: {}->{}".format(prev, state))\<close>,
  \<^verbatim>\<open>Exception("Rules without outgoing component are invalid.")\<close>, and the failure
  of \<^verbatim>\<open>open(fname)\<close>.
\<close>

datatype error =
    FoundIncreasingSequence counter counter
  | RulesWithoutOutgoing
  | CannotOpen string

section \<open>run\<close>

text \<open>
  The local variables of one pass of the outer loop: the output printed so far, and
  \<^verbatim>\<open>state\<close>, \<^verbatim>\<open>to_add\<close>, \<^verbatim>\<open>end\<close>.
\<close>

type_synonym pass_state = "event list \<times> counter \<times> counter \<times> bool"

text \<open>
  The inner \<^verbatim>\<open>while True\<close> loop of \<^verbatim>\<open>run\<close>, for one rule. It does not return
  when the test never fails (an outgoing counter without a positive count), which is
  the value \<open>None\<close>.
\<close>

partial_function (option) apply_rule ::
  "opts \<Rightarrow> counter \<Rightarrow> counter \<Rightarrow> pass_state \<Rightarrow> pass_state option" where
  "apply_rule opts outgoing incoming ps =
     (case ps of (out, state, to_add, end_flag) \<Rightarrow>
        if counter_add (counter_sub state outgoing) outgoing = state
        then apply_rule opts outgoing incoming
               (out @ (if verbose opts then [PrintRule outgoing incoming] else []),
                counter_sub state outgoing, counter_add to_add incoming, False)
        else Some ps)"

text \<open>\<^verbatim>\<open>for outgoing, incoming in rules\<close>.\<close>

fun for_rules :: "opts \<Rightarrow> rule list \<Rightarrow> pass_state \<Rightarrow> pass_state option" where
  "for_rules opts [] ps = Some ps"
| "for_rules opts ((outgoing, incoming) # rules) ps =
     Option.bind (apply_rule opts outgoing incoming ps) (for_rules opts rules)"

text \<open>
  Lines 45 to 57, one step of the engine: \<^verbatim>\<open>to_add = Counter()\<close>,
  \<^verbatim>\<open>end = True\<close>, the loop over the rules, \<^verbatim>\<open>state += to_add\<close>. It takes the
  output printed so far and \<^verbatim>\<open>state\<close>, and gives the output, the new \<^verbatim>\<open>state\<close>
  and \<^verbatim>\<open>end\<close>.
\<close>

definition step ::
  "opts \<Rightarrow> rule list \<Rightarrow> event list \<Rightarrow> counter \<Rightarrow> (event list \<times> counter \<times> bool) option" where
  "step opts rules out state =
     do {
       (out', state', to_add, end_flag) \<leftarrow>
         for_rules opts rules (out, state, empty_counter, True);
       Some (out', counter_add state' to_add, end_flag)
     }"

text \<open>\<^verbatim>\<open>for prev in previous_states\<close>: the first entry that passes the test raises.\<close>

fun check_previous :: "counter \<Rightarrow> counter list \<Rightarrow> error option" where
  "check_previous state [] = None"
| "check_previous state (prev # rest) =
     (if counter_add (counter_sub state prev) prev = state
      then Some (FoundIncreasingSequence prev state)
      else check_previous state rest)"

text \<open>
  The variables that live across the passes of the outer loop: \<^verbatim>\<open>state\<close>,
  \<^verbatim>\<open>previous_states\<close> (the empty list when \<^verbatim>\<open>opts.detect_loops\<close> is off, where the
  program has no such variable), the output printed so far and the number of passes
  completed. The last one is not a variable of the program: it counts the steps.
\<close>

type_synonym config = "counter \<times> counter list \<times> event list \<times> nat"

text \<open>What a run ends with: the output, the number of passes, and the exception or
  the returned state.\<close>

type_synonym result = "event list \<times> nat \<times> (error + counter)"

text \<open>
  One pass of the outer \<^verbatim>\<open>while True\<close> loop: \<open>Inl\<close> is the configuration the next
  pass starts from, \<open>Inr\<close> the end of the run (a \<^verbatim>\<open>raise\<close> or the \<^verbatim>\<open>return\<close>).
  \<open>None\<close> is an inner loop that does not return.
\<close>

definition pass :: "rule list \<Rightarrow> opts \<Rightarrow> config \<Rightarrow> (config + result) option" where
  "pass rules opts c =
     (case c of (state, previous_states, out, n) \<Rightarrow>
        do {
          (out', state', end_flag) \<leftarrow>
            step opts rules (out @ (if verbose opts then [PrintState state] else [])) state;
          if detect_loops opts
          then (case check_previous state' previous_states of
                  Some e \<Rightarrow> Some (Inr (out', Suc n, Inl e))
                | None \<Rightarrow>
                    if end_flag then Some (Inr (out', Suc n, Inr state'))
                    else Some (Inl (state', previous_states @ [state'], out', Suc n)))
          else if end_flag then Some (Inr (out', Suc n, Inr state'))
          else Some (Inl (state', previous_states, out', Suc n))
        })"

text \<open>The outer \<^verbatim>\<open>while True\<close> loop; \<open>None\<close> is a run that does not return.\<close>

partial_function (option) loop :: "rule list \<Rightarrow> opts \<Rightarrow> config \<Rightarrow> result option" where
  "loop rules opts c =
     Option.bind (pass rules opts c)
       (\<lambda>r. case r of Inl c' \<Rightarrow> loop rules opts c' | Inr res \<Rightarrow> Some res)"

definition initial_config :: "counter \<Rightarrow> opts \<Rightarrow> config" where
  "initial_config state opts = (state, (if detect_loops opts then [state] else []), [], 0)"

definition run :: "rule list \<Rightarrow> counter \<Rightarrow> opts \<Rightarrow> result option" where
  "run rules state opts = loop rules opts (initial_config state opts)"

text \<open>
  The configurations at the head of the outer loop in the course of a run, with the
  number of passes made to get there: the configuration itself after no pass, and the
  one that a pass which neither raises nor returns leaves behind.
\<close>

inductive reaches :: "rule list \<Rightarrow> opts \<Rightarrow> config \<Rightarrow> nat \<Rightarrow> config \<Rightarrow> bool"
  for rules :: "rule list" and opts :: opts where
  reaches_here: "reaches rules opts c 0 c"
| reaches_pass:
    "reaches rules opts c k c' \<Longrightarrow> pass rules opts c' = Some (Inl c'') \<Longrightarrow>
     reaches rules opts c (Suc k) c''"

text \<open>
  \<^verbatim>\<open>Counter.__repr__ = lambda self: "".join(self.elements())\<close>: each key as many
  times as its count, the keys with a count below 1 left out, in the order of the keys
  of the dictionary. The order is not part of a counter here and is given with it.
\<close>

definition elements :: "string \<Rightarrow> counter \<Rightarrow> string" where
  "elements keys c = concat (map (\<lambda>k. replicate (nat (c k)) k) keys)"

section \<open>main\<close>

definition SYMBOLS :: string where
  "SYMBOLS = ''abcde''"

text \<open>
  \<^verbatim>\<open>str.upper\<close> and \<^verbatim>\<open>str.lower\<close>, on the letters of ASCII; the program applies
  them to \<^verbatim>\<open>SYMBOLS\<close> and to the characters of \<^verbatim>\<open>SYMBOLS.upper()\<close> only.
\<close>

definition upper_char :: "char \<Rightarrow> char" where
  "upper_char c =
     (let n = (of_char c :: nat) in if 97 \<le> n \<and> n \<le> 122 then char_of (n - 32) else c)"

definition lower_char :: "char \<Rightarrow> char" where
  "lower_char c =
     (let n = (of_char c :: nat) in if 65 \<le> n \<and> n \<le> 90 then char_of (n + 32) else c)"

definition upper :: "string \<Rightarrow> string" where
  "upper s = map upper_char s"

text \<open>
  \<^verbatim>\<open>str.isspace\<close> below code point 256, and \<^verbatim>\<open>line.split()\<close>: the maximal runs
  of characters that are not whitespace.
\<close>

definition isspace :: "char \<Rightarrow> bool" where
  "isspace c = ((of_char c :: nat) \<in> {9, 10, 11, 12, 13, 28, 29, 30, 31, 32, 133, 160})"

fun split_from :: "string \<Rightarrow> string \<Rightarrow> string list" where
  "split_from word [] = (if word = [] then [] else [word])"
| "split_from word (c # cs) =
     (if isspace c then (if word = [] then split_from [] cs else word # split_from [] cs)
      else split_from (word @ [c]) cs)"

definition str_split :: "string \<Rightarrow> string list" where
  "str_split line = split_from [] line"

text \<open>The rule that a word of a program file stands for (lines 69 to 72).\<close>

definition rule_of_word :: "string \<Rightarrow> rule" where
  "rule_of_word word =
     (Counter [symbol \<leftarrow> word. symbol \<in> set SYMBOLS],
      Counter (map lower_char [symbol \<leftarrow> word. symbol \<in> set (upper SYMBOLS)]))"

text \<open>\<^verbatim>\<open>if line and not line.startswith("#") for word in line.split()\<close>.\<close>

definition rules_of_line :: "string \<Rightarrow> rule list" where
  "rules_of_line line =
     (if line \<noteq> [] \<and> \<not> (case line of [] \<Rightarrow> False | c # _ \<Rightarrow> c = CHR ''#'')
      then map rule_of_word (str_split line) else [])"

text \<open>
  The files are a map from a name to the lines that iterating over the open file
  gives; a name without a file makes \<^verbatim>\<open>open\<close> raise.
\<close>

fun read_rules :: "(string \<rightharpoonup> string list) \<Rightarrow> string list \<Rightarrow> error + rule list" where
  "read_rules files [] = Inr []"
| "read_rules files (fname # input_rules) =
     (case files fname of
        None \<Rightarrow> Inl (CannotOpen fname)
      | Some lines \<Rightarrow>
          (case read_rules files input_rules of
             Inl e \<Rightarrow> Inl e
           | Inr rules \<Rightarrow> Inr (concat (map rules_of_line lines) @ rules)))"

text \<open>\<^verbatim>\<open>for rule in rules: if not rule[0]: raise\<close>; a counter is false when it has no key.\<close>

fun check_rules :: "rule list \<Rightarrow> error option" where
  "check_rules [] = None"
| "check_rules (rule # rules) =
     (if fst rule = empty_counter then Some RulesWithoutOutgoing else check_rules rules)"

text \<open>Lines 80 and 81: the initial state read from the text of standard input.\<close>

definition initial_state :: "string \<Rightarrow> counter" where
  "initial_state contents = Counter [symbol \<leftarrow> contents. symbol \<in> set SYMBOLS]"

text \<open>
  \<^verbatim>\<open>main\<close> takes the files, the names of the program files, the text waiting on
  standard input and the options. It gives the text left unread on standard input and
  the result of the run, which \<^verbatim>\<open>main\<close> prints; an exception raised before the run
  leaves the input unread.
\<close>

definition main ::
  "(string \<rightharpoonup> string list) \<Rightarrow> string list \<Rightarrow> string \<Rightarrow> opts \<Rightarrow> (string \<times> result) option" where
  "main files input_rules input_state opts =
     (case read_rules files input_rules of
        Inl e \<Rightarrow> Some (input_state, [], 0, Inl e)
      | Inr rules \<Rightarrow>
          (case check_rules rules of
             Some e \<Rightarrow> Some (input_state, [], 0, Inl e)
           | None \<Rightarrow> map_option (Pair []) (run rules (initial_state input_state) opts)))"

section \<open>The multisets of the specification\<close>

text \<open>
  The operations as the specification words them: a multiset maps each symbol to a
  count that is not negative; \<open>contains\<close> compares the counts symbol by symbol,
  \<open>subtract\<close> and \<open>add\<close> work on the counts symbol by symbol.
\<close>

definition nonneg :: "counter \<Rightarrow> bool" where
  "nonneg a = (\<forall>k. 0 \<le> a k)"

definition contains :: "counter \<Rightarrow> counter \<Rightarrow> bool" where
  "contains a b = (\<forall>k. b k \<le> a k)"

definition subtract :: "counter \<Rightarrow> counter \<Rightarrow> counter" where
  "subtract a b = (\<lambda>k. a k - b k)"

definition add :: "counter \<Rightarrow> counter \<Rightarrow> counter" where
  "add a b = (\<lambda>k. a k + b k)"

text \<open>
  The step of the specification, as it words it: for each rule in order, while the
  state contains the outgoing multiset, subtract it, add the incoming multiset to
  \<open>pending\<close> and set \<open>fired\<close>; at the end add \<open>pending\<close> to the state.
\<close>

partial_function (option) spec_while ::
  "counter \<Rightarrow> counter \<Rightarrow> counter \<times> counter \<times> bool \<Rightarrow> (counter \<times> counter \<times> bool) option" where
  "spec_while out_ms in_ms v =
     (case v of (state, pending, fired) \<Rightarrow>
        if contains state out_ms
        then spec_while out_ms in_ms (subtract state out_ms, add pending in_ms, True)
        else Some v)"

fun spec_rules ::
  "rule list \<Rightarrow> counter \<times> counter \<times> bool \<Rightarrow> (counter \<times> counter \<times> bool) option" where
  "spec_rules [] v = Some v"
| "spec_rules ((out_ms, in_ms) # rules) v =
     Option.bind (spec_while out_ms in_ms v) (spec_rules rules)"

definition spec_step :: "rule list \<Rightarrow> counter \<Rightarrow> (counter \<times> bool) option" where
  "spec_step rules state =
     do {
       (state', pending, fired) \<leftarrow> spec_rules rules (state, empty_counter, False);
       Some (add state' pending, fired)
     }"

text \<open>
  With loop detection on, the last entry of \<^verbatim>\<open>previous_states\<close> is the state the
  pass starts from.
\<close>

definition hist_ok :: "config \<Rightarrow> bool" where
  "hist_ok c = (case c of (state, hist, out, n) \<Rightarrow> hist \<noteq> [] \<and> last hist = state)"

text \<open>
  The multisets that a run shows: the ones it prints, the ones an exception carries,
  the ones of a configuration and the one it returns.
\<close>

fun event_nonneg :: "event \<Rightarrow> bool" where
  "event_nonneg (PrintState state) = nonneg state"
| "event_nonneg (PrintRule outgoing incoming) = (nonneg outgoing \<and> nonneg incoming)"

fun error_nonneg :: "error \<Rightarrow> bool" where
  "error_nonneg (FoundIncreasingSequence prev state) = (nonneg prev \<and> nonneg state)"
| "error_nonneg RulesWithoutOutgoing = True"
| "error_nonneg (CannotOpen fname) = True"

definition config_nonneg :: "config \<Rightarrow> bool" where
  "config_nonneg c =
     (case c of (state, hist, out, n) \<Rightarrow>
        nonneg state \<and> list_all nonneg hist \<and> list_all event_nonneg out)"

definition result_nonneg :: "result \<Rightarrow> bool" where
  "result_nonneg res =
     (case res of (out, n, r) \<Rightarrow>
        list_all event_nonneg out \<and> (case r of Inl e \<Rightarrow> error_nonneg e | Inr state \<Rightarrow> nonneg state))"

definition rules_nonneg :: "rule list \<Rightarrow> bool" where
  "rules_nonneg rules = list_all (\<lambda>rule. nonneg (fst rule) \<and> nonneg (snd rule)) rules"

section \<open>Counters\<close>

lemma guard_iff:
  "(counter_add (counter_sub s og) og = s) \<longleftrightarrow> nonneg s \<and> contains s og"
  by (auto simp: counter_add_def counter_sub_def nonneg_def contains_def fun_eq_iff max_def)

lemma nonneg_counter_add: "nonneg (counter_add a b)"
  by (simp add: nonneg_def counter_add_def)

lemma nonneg_counter_sub: "nonneg (counter_sub a b)"
  by (simp add: nonneg_def counter_sub_def)

lemma nonneg_Counter: "nonneg (Counter xs)"
  by (simp add: nonneg_def Counter_def)

lemma nonneg_empty_counter: "nonneg empty_counter"
  by (simp add: nonneg_def empty_counter_def)

lemma counter_sub_exact: "contains a b \<Longrightarrow> counter_sub a b = subtract a b"
  by (auto simp: contains_def counter_sub_def subtract_def fun_eq_iff max_def)

lemma counter_add_exact: "nonneg a \<Longrightarrow> nonneg b \<Longrightarrow> counter_add a b = add a b"
  by (auto simp: nonneg_def counter_add_def add_def fun_eq_iff max_def)

lemma counter_add_empty: "nonneg a \<Longrightarrow> counter_add a empty_counter = a"
  by (auto simp: nonneg_def counter_add_def empty_counter_def fun_eq_iff max_def)

lemma apply_rule_fire:
  "counter_add (counter_sub state outgoing) outgoing = state \<Longrightarrow>
   apply_rule opts outgoing incoming (out, state, to_add, e) =
   apply_rule opts outgoing incoming
     (out @ (if verbose opts then [PrintRule outgoing incoming] else []),
      counter_sub state outgoing, counter_add to_add incoming, False)"
  by (subst apply_rule.simps) simp

lemma apply_rule_stop:
  "counter_add (counter_sub state outgoing) outgoing \<noteq> state \<Longrightarrow>
   apply_rule opts outgoing incoming (out, state, to_add, e) = Some (out, state, to_add, e)"
  by (subst apply_rule.simps) simp


lemma apply_rule_end:
  assumes "apply_rule opts outgoing incoming ps = Some ps'"
  shows "snd (snd (snd ps')) \<longrightarrow> ps' = ps"
proof (rule apply_rule.raw_induct
    [where P = "\<lambda>opts outgoing incoming ps ps'. snd (snd (snd ps')) \<longrightarrow> ps' = ps", OF _ assms],
    goal_cases)
  case (1 f opts outgoing incoming ps ps')
  obtain out state to_add e where ps: "ps = (out, state, to_add, e)"
    by (cases ps) auto
  show ?case
  proof (cases "counter_add (counter_sub state outgoing) outgoing = state")
    case True
    with 1(2) ps have "f opts outgoing incoming
               (out @ (if verbose opts then [PrintRule outgoing incoming] else []),
                counter_sub state outgoing, counter_add to_add incoming, False) = Some ps'"
      by simp
    from 1(1)[OF this] show ?thesis by auto
  next
    case False
    with 1(2) ps show ?thesis by simp
  qed
qed

lemma for_rules_end:
  "for_rules opts rules ps = Some ps' \<Longrightarrow> snd (snd (snd ps')) \<Longrightarrow> ps' = ps"
proof (induction rules arbitrary: ps)
  case Nil
  then show ?case by simp
next
  case (Cons rule rules)
  obtain outgoing incoming where rule: "rule = (outgoing, incoming)"
    by (cases rule) auto
  from Cons.prems(1) rule obtain mid where
    mid: "apply_rule opts outgoing incoming ps = Some mid" and
    rest: "for_rules opts rules mid = Some ps'"
    by (auto simp: bind_eq_Some_conv)
  from Cons.IH[OF rest Cons.prems(2)] have "ps' = mid" .
  with apply_rule_end[OF mid] Cons.prems(2) show ?case by simp
qed

lemma step_end:
  assumes "step opts rules out state = Some (out', state', True)"
  shows "out' = out \<and> state' = counter_add state empty_counter"
proof -
  from assms obtain s t where
    fr: "for_rules opts rules (out, state, empty_counter, True) = Some (out', s, t, True)"
    and st: "state' = counter_add s t"
    by (auto simp: step_def bind_eq_Some_conv)
  from for_rules_end[OF fr] have "(out', s, t, True) = (out, state, empty_counter, True)"
    by simp
  with st show ?thesis by simp
qed

lemma guard_last:
  "counter_add (counter_sub (counter_add s empty_counter) s) s = counter_add s empty_counter"
  by (auto simp: counter_add_def counter_sub_def empty_counter_def fun_eq_iff max_def)

lemma check_previous_append:
  "check_previous state (xs @ ys) =
     (case check_previous state xs of Some e \<Rightarrow> Some e | None \<Rightarrow> check_previous state ys)"
  by (induction xs) auto

lemma check_previous_last:
  assumes "hist \<noteq> []" "counter_add (counter_sub state (last hist)) (last hist) = state"
  shows "check_previous state hist \<noteq> None"
proof -
  from assms(1) have "hist = butlast hist @ [last hist]" by simp
  then have "check_previous state hist = check_previous state (butlast hist @ [last hist])"
    by simp
  with assms(2) show ?thesis
    by (simp add: check_previous_append split: option.splits)
qed

lemma check_previous_Some:
  "check_previous state hist = Some e \<Longrightarrow>
   \<exists>prev. e = FoundIncreasingSequence prev state \<and> prev \<in> set hist \<and> contains state prev"
  by (induction hist) (auto split: if_splits simp: guard_iff)

lemma pass_detect:
  assumes "detect_loops opts" "hist_ok c" "pass rules opts c = Some r"
  shows "(\<forall>c'. r = Inl c' \<longrightarrow> hist_ok c') \<and>
         (\<forall>out n x. r = Inr (out, n, x) \<longrightarrow>
            (\<exists>prev cur. x = Inl (FoundIncreasingSequence prev cur) \<and> contains cur prev))"
proof -
  obtain state hist out n where c: "c = (state, hist, out, n)" by (cases c) auto
  from assms(3) c obtain out' state' e where
    st: "step opts rules (out @ (if verbose opts then [PrintState state] else [])) state =
           Some (out', state', e)"
    by (auto simp: pass_def bind_eq_Some_conv)
  have "check_previous state' hist \<noteq> None" if "e"
  proof -
    from st that have
      "step opts rules (out @ (if verbose opts then [PrintState state] else [])) state =
         Some (out', state', True)"
      by simp
    then have "state' = counter_add state empty_counter"
      by (simp add: step_end)
    with assms(2) c show ?thesis
      by (intro check_previous_last) (auto simp: hist_ok_def guard_last)
  qed
  with assms(1,3) c st show ?thesis
    by (auto simp: pass_def hist_ok_def split: option.splits if_splits
             dest: check_previous_Some)
qed

lemma loop_detect:
  assumes "loop rules opts c = Some res"
  shows "detect_loops opts \<longrightarrow> hist_ok c \<longrightarrow>
         (\<exists>out n prev cur. res = (out, n, Inl (FoundIncreasingSequence prev cur)) \<and>
            contains cur prev)"
proof (rule loop.raw_induct
    [where P = "\<lambda>rules opts c res. detect_loops opts \<longrightarrow> hist_ok c \<longrightarrow>
         (\<exists>out n prev cur. res = (out, n, Inl (FoundIncreasingSequence prev cur)) \<and>
            contains cur prev)",
     OF _ assms], goal_cases)
  case (1 f rules opts c res)
  show ?case
  proof (intro impI)
    assume d: "detect_loops opts" and h: "hist_ok c"
    from 1(2) obtain r where r: "pass rules opts c = Some r"
      and k: "(case r of Inl c' \<Rightarrow> f rules opts c' | Inr res \<Rightarrow> Some res) = Some res"
      by (auto simp: bind_eq_Some_conv)
    note inv = pass_detect[OF d h r]
    show "\<exists>out n prev cur. res = (out, n, Inl (FoundIncreasingSequence prev cur)) \<and>
            contains cur prev"
    proof (cases r)
      case (Inl c')
      with k have "f rules opts c' = Some res" by simp
      from 1(1)[OF this] d inv Inl show ?thesis by simp
    next
      case (Inr res')
      obtain out n x where "res' = (out, n, x)" by (cases res') auto
      with Inr k inv show ?thesis by auto
    qed
  qed
qed

section \<open>Evaluating runs\<close>

lemma Counter_apply: "Counter xs k = int (count_list xs k)"
  by (simp add: Counter_def)
lemma counter_sub_apply: "counter_sub a b k = max 0 (a k - b k)"
  by (simp add: counter_sub_def)
lemma counter_add_apply: "counter_add a b k = max 0 (a k + b k)"
  by (simp add: counter_add_def)
lemma empty_counter_apply: "empty_counter k = 0"
  by (simp add: empty_counter_def)

lemmas counter_eval = guard_iff nonneg_def contains_def fun_eq_iff
  Counter_apply counter_sub_apply counter_add_apply empty_counter_apply

lemma loop_continue: "pass rules opts c = Some (Inl c') \<Longrightarrow> loop rules opts c = loop rules opts c'"
  by (subst loop.simps) simp

lemma loop_finish: "pass rules opts c = Some (Inr res) \<Longrightarrow> loop rules opts c = Some res"
  by (subst loop.simps) simp

lemma step_a_to_b_first:
  "step opts [(Counter ''a'', Counter ''b'')] out (Counter ''a'') =
   Some (out @ (if verbose opts then [PrintRule (Counter ''a'') (Counter ''b'')] else []),
         Counter ''b'', False)"
  by (simp add: step_def apply_rule_fire apply_rule_stop counter_eval)

lemma step_a_to_b_second:
  "step opts [(Counter ''a'', Counter ''b'')] out (Counter ''b'') = Some (out, Counter ''b'', True)"
  by (simp add: step_def apply_rule_fire apply_rule_stop counter_eval)

lemma run_a_to_b_detect:
  "run [(Counter ''a'', Counter ''b'')] (Counter ''a'') \<lparr>verbose = False, detect_loops = True\<rparr> =
   Some ([], 2, Inl (FoundIncreasingSequence (Counter ''b'') (Counter ''b'')))"
proof -
  let ?rules = "[(Counter ''a'', Counter ''b'')]"
  let ?opts = "\<lparr>verbose = False, detect_loops = True\<rparr>"
  have p1: "pass ?rules ?opts (Counter ''a'', [Counter ''a''], [], 0) =
      Some (Inl (Counter ''b'', [Counter ''a'', Counter ''b''], [], 1))"
    by (simp add: pass_def step_a_to_b_first counter_eval)
  have p2: "pass ?rules ?opts (Counter ''b'', [Counter ''a'', Counter ''b''], [], 1) =
      Some (Inr ([], 2, Inl (FoundIncreasingSequence (Counter ''b'') (Counter ''b''))))"
    by (simp add: pass_def step_a_to_b_second counter_eval)
  have "run ?rules (Counter ''a'') ?opts = loop ?rules ?opts (Counter ''a'', [Counter ''a''], [], 0)"
    by (simp add: run_def initial_config_def)
  also have "\<dots> = loop ?rules ?opts (Counter ''b'', [Counter ''a'', Counter ''b''], [], 1)"
    by (rule loop_continue[OF p1])
  also have "\<dots> = Some ([], 2, Inl (FoundIncreasingSequence (Counter ''b'') (Counter ''b'')))"
    by (rule loop_finish[OF p2])
  finally show ?thesis .
qed

lemma run_a_to_b:
  "run [(Counter ''a'', Counter ''b'')] (Counter ''a'') \<lparr>verbose = v, detect_loops = False\<rparr> =
   Some (if v then [PrintState (Counter ''a''), PrintRule (Counter ''a'') (Counter ''b''),
                    PrintState (Counter ''b'')] else [],
         2, Inr (Counter ''b''))"
proof -
  let ?rules = "[(Counter ''a'', Counter ''b'')]"
  let ?opts = "\<lparr>verbose = v, detect_loops = False\<rparr>"
  let ?out1 = "if v then [PrintState (Counter ''a''), PrintRule (Counter ''a'') (Counter ''b'')] else []"
  let ?out2 = "if v then [PrintState (Counter ''a''), PrintRule (Counter ''a'') (Counter ''b''),
                    PrintState (Counter ''b'')] else []"
  have p1: "pass ?rules ?opts (Counter ''a'', [], [], 0) = Some (Inl (Counter ''b'', [], ?out1, 1))"
    by (simp add: pass_def step_a_to_b_first)
  have p2: "pass ?rules ?opts (Counter ''b'', [], ?out1, 1) = Some (Inr (?out2, 2, Inr (Counter ''b'')))"
    by (simp add: pass_def step_a_to_b_second)
  have "run ?rules (Counter ''a'') ?opts = loop ?rules ?opts (Counter ''a'', [], [], 0)"
    by (simp add: run_def initial_config_def)
  also have "\<dots> = loop ?rules ?opts (Counter ''b'', [], ?out1, 1)"
    by (rule loop_continue[OF p1])
  also have "\<dots> = Some (?out2, 2, Inr (Counter ''b''))"
    by (rule loop_finish[OF p2])
  finally show ?thesis .
qed

section \<open>The step of the code and the step of the specification\<close>

lemma spec_while_fire:
  "contains state out_ms \<Longrightarrow>
   spec_while out_ms in_ms (state, pending, fired) =
   spec_while out_ms in_ms (subtract state out_ms, add pending in_ms, True)"
  by (subst spec_while.simps) simp

lemma spec_while_stop:
  "\<not> contains state out_ms \<Longrightarrow>
   spec_while out_ms in_ms (state, pending, fired) = Some (state, pending, fired)"
  by (subst spec_while.simps) simp

lemma nonneg_subtract: "contains a b \<Longrightarrow> nonneg (subtract a b)"
  by (simp add: contains_def nonneg_def subtract_def)

lemma nonneg_add: "nonneg a \<Longrightarrow> nonneg b \<Longrightarrow> nonneg (add a b)"
  by (simp add: nonneg_def add_def)

lemma apply_rule_refines:
  assumes "apply_rule opts outgoing incoming ps = Some ps'"
  shows "\<forall>out s t e. ps = (out, s, t, e) \<and> nonneg s \<and> nonneg t \<and> nonneg incoming \<longrightarrow>
           (\<exists>out' s' t' e'. ps' = (out', s', t', e') \<and> nonneg s' \<and> nonneg t' \<and>
              spec_while outgoing incoming (s, t, \<not> e) = Some (s', t', \<not> e'))"
proof (rule apply_rule.raw_induct
    [where P = "\<lambda>opts outgoing incoming ps ps'.
        \<forall>out s t e. ps = (out, s, t, e) \<and> nonneg s \<and> nonneg t \<and> nonneg incoming \<longrightarrow>
           (\<exists>out' s' t' e'. ps' = (out', s', t', e') \<and> nonneg s' \<and> nonneg t' \<and>
              spec_while outgoing incoming (s, t, \<not> e) = Some (s', t', \<not> e'))",
     OF _ assms], goal_cases)
  case (1 f opts outgoing incoming ps ps')
  show ?case
  proof (intro allI impI, elim conjE)
    fix out s t e
    assume ps: "ps = (out, s, t, e)" and s: "nonneg s" and t: "nonneg t" and i: "nonneg incoming"
    show "\<exists>out' s' t' e'. ps' = (out', s', t', e') \<and> nonneg s' \<and> nonneg t' \<and>
              spec_while outgoing incoming (s, t, \<not> e) = Some (s', t', \<not> e')"
    proof (cases "contains s outgoing")
      case True
      with s have g: "counter_add (counter_sub s outgoing) outgoing = s"
        by (simp add: guard_iff)
      with 1(2) ps have "f opts outgoing incoming
          (out @ (if verbose opts then [PrintRule outgoing incoming] else []),
           counter_sub s outgoing, counter_add t incoming, False) = Some ps'"
        by simp
      from 1(1)[OF this] obtain out' s' t' e' where
        "ps' = (out', s', t', e')" "nonneg s'" "nonneg t'"
        "spec_while outgoing incoming (counter_sub s outgoing, counter_add t incoming, True) =
           Some (s', t', \<not> e')"
        using i by (auto simp: nonneg_counter_sub nonneg_counter_add)
      with True t i show ?thesis
        by (simp add: spec_while_fire counter_sub_exact counter_add_exact)
    next
      case False
      with s have "counter_add (counter_sub s outgoing) outgoing \<noteq> s"
        by (simp add: guard_iff)
      with 1(2) ps have "ps' = ps" by simp
      with ps s t False show ?thesis
        by (simp add: spec_while_stop)
    qed
  qed
qed

lemma spec_while_refined:
  assumes "spec_while out_ms in_ms v = Some v'"
  shows "\<forall>s t fired out. v = (s, t, fired) \<and> nonneg s \<and> nonneg t \<and> nonneg in_ms \<longrightarrow>
           (\<exists>ps'. apply_rule opts out_ms in_ms (out, s, t, \<not> fired) = Some ps')"
proof (rule spec_while.raw_induct
    [where P = "\<lambda>out_ms in_ms v v'.
        \<forall>s t fired out. v = (s, t, fired) \<and> nonneg s \<and> nonneg t \<and> nonneg in_ms \<longrightarrow>
           (\<exists>ps'. apply_rule opts out_ms in_ms (out, s, t, \<not> fired) = Some ps')",
     OF _ assms], goal_cases)
  case (1 f out_ms in_ms v v')
  show ?case
  proof (intro allI impI, elim conjE)
    fix s t fired out
    assume v: "v = (s, t, fired)" and s: "nonneg s" and t: "nonneg t" and i: "nonneg in_ms"
    show "\<exists>ps'. apply_rule opts out_ms in_ms (out, s, t, \<not> fired) = Some ps'"
    proof (cases "contains s out_ms")
      case True
      let ?out = "out @ (if verbose opts then [PrintRule out_ms in_ms] else [])"
      from 1(2) v True have "f out_ms in_ms (subtract s out_ms, add t in_ms, True) = Some v'"
        by simp
      from 1(1)[OF this, rule_format, of "subtract s out_ms" "add t in_ms" True ?out]
      obtain ps' where
        "apply_rule opts out_ms in_ms (?out, subtract s out_ms, add t in_ms, False) = Some ps'"
        using True t i by (auto simp: nonneg_subtract nonneg_add)
      moreover from True s have "counter_add (counter_sub s out_ms) out_ms = s"
        by (simp add: guard_iff)
      from apply_rule_fire[OF this, of opts in_ms out t "\<not> fired"]
      have "apply_rule opts out_ms in_ms (out, s, t, \<not> fired) =
            apply_rule opts out_ms in_ms (?out, subtract s out_ms, add t in_ms, False)"
        using True t i by (simp add: counter_sub_exact counter_add_exact)
      ultimately show ?thesis by (intro exI[of _ ps']) simp
    next
      case False
      then have "counter_add (counter_sub s out_ms) out_ms \<noteq> s"
        by (simp add: guard_iff)
      then show ?thesis by (intro exI[of _ "(out, s, t, \<not> fired)"]) (simp add: apply_rule_stop)
    qed
  qed
qed

lemma apply_rule_spec_while:
  assumes "nonneg s" "nonneg t" "nonneg incoming"
  shows "map_option (\<lambda>(out', s', t', e'). (s', t', \<not> e'))
           (apply_rule opts outgoing incoming (out, s, t, e)) =
         spec_while outgoing incoming (s, t, \<not> e)"
proof (cases "apply_rule opts outgoing incoming (out, s, t, e)")
  case None
  have "spec_while outgoing incoming (s, t, \<not> e) = None"
  proof (rule ccontr)
    assume "spec_while outgoing incoming (s, t, \<not> e) \<noteq> None"
    then obtain v' where "spec_while outgoing incoming (s, t, \<not> e) = Some v'" by auto
    from spec_while_refined[OF this, of opts, rule_format, of s t "\<not> e" out] assms
    have "\<exists>ps'. apply_rule opts outgoing incoming (out, s, t, e) = Some ps'" by simp
    with None show False by simp
  qed
  with None show ?thesis by simp
next
  case (Some ps')
  from apply_rule_refines[OF Some] assms Some show ?thesis by auto
qed

lemma apply_rule_nonneg:
  assumes "apply_rule opts outgoing incoming (out, s, t, e) = Some (out', s', t', e')"
    "nonneg s" "nonneg t" "nonneg incoming"
  shows "nonneg s' \<and> nonneg t'"
  using apply_rule_refines[OF assms(1)] assms(2-4) by auto

lemma for_rules_spec_rules:
  assumes "nonneg s" "nonneg t" "list_all (\<lambda>rule. nonneg (snd rule)) rules"
  shows "map_option (\<lambda>(out', s', t', e'). (s', t', \<not> e')) (for_rules opts rules (out, s, t, e)) =
         spec_rules rules (s, t, \<not> e)"
  using assms
proof (induction rules arbitrary: out s t e)
  case Nil
  then show ?case by simp
next
  case (Cons rule rules)
  obtain outgoing incoming where rule: "rule = (outgoing, incoming)" by (cases rule) auto
  with Cons.prems have i: "nonneg incoming" and rs: "list_all (\<lambda>rule. nonneg (snd rule)) rules"
    by simp_all
  note eq = apply_rule_spec_while[OF Cons.prems(1,2) i, of opts outgoing out e]
  show ?case
  proof (cases "apply_rule opts outgoing incoming (out, s, t, e)")
    case None
    with eq rule show ?thesis by simp
  next
    case (Some ps')
    obtain out' s' t' e' where ps': "ps' = (out', s', t', e')" by (cases ps') auto
    from apply_rule_nonneg[OF Some[unfolded ps'] Cons.prems(1,2) i]
    have "nonneg s'" "nonneg t'" by simp_all
    from Cons.IH[OF this rs, of out' e'] eq[symmetric] Some ps' rule show ?thesis by simp
  qed
qed

lemma for_rules_nonneg:
  assumes "for_rules opts rules (out, s, t, e) = Some (out', s', t', e')"
    "nonneg s" "nonneg t" "list_all (\<lambda>rule. nonneg (snd rule)) rules"
  shows "nonneg s' \<and> nonneg t'"
  using assms
proof (induction rules arbitrary: out s t e)
  case Nil
  then show ?case by simp
next
  case (Cons rule rules)
  obtain outgoing incoming where rule: "rule = (outgoing, incoming)" by (cases rule) auto
  with Cons.prems have i: "nonneg incoming" and rs: "list_all (\<lambda>rule. nonneg (snd rule)) rules"
    by simp_all
  from Cons.prems(1) rule obtain out1 s1 t1 e1 where
    mid: "apply_rule opts outgoing incoming (out, s, t, e) = Some (out1, s1, t1, e1)" and
    rest: "for_rules opts rules (out1, s1, t1, e1) = Some (out', s', t', e')"
    by (auto simp: bind_eq_Some_conv)
  from apply_rule_nonneg[OF mid Cons.prems(2,3) i] have "nonneg s1" "nonneg t1" by simp_all
  from Cons.IH[OF rest this rs] show ?case .
qed

lemma step_spec_step:
  assumes "nonneg state" "list_all (\<lambda>rule. nonneg (snd rule)) rules"
  shows "map_option (\<lambda>(out', state', end_flag). (state', \<not> end_flag)) (step opts rules out state) =
         spec_step rules state"
proof -
  note eq = for_rules_spec_rules[OF assms(1) nonneg_empty_counter assms(2), of opts out True]
  show ?thesis
  proof (cases "for_rules opts rules (out, state, empty_counter, True)")
    case None
    with eq show ?thesis by (simp add: step_def spec_step_def)
  next
    case (Some ps')
    obtain out' s' t' e' where ps': "ps' = (out', s', t', e')" by (cases ps') auto
    have "nonneg s' \<and> nonneg t'"
      by (rule for_rules_nonneg[OF Some[unfolded ps'] assms(1) nonneg_empty_counter assms(2)])
    with eq[symmetric] Some ps' show ?thesis
      by (simp add: step_def spec_step_def counter_add_exact)
  qed
qed

section \<open>Reading the program and the input\<close>

lemma count_list_filter:
  "count_list (filter P xs) k = (if P k then count_list xs k else 0)"
  by (induction xs) auto

lemma char_of_codes:
  "char_of (65::nat) = CHR ''A''" "char_of (66::nat) = CHR ''B''" "char_of (67::nat) = CHR ''C''"
  "char_of (68::nat) = CHR ''D''" "char_of (69::nat) = CHR ''E''"
  "char_of (97::nat) = CHR ''a''" "char_of (98::nat) = CHR ''b''" "char_of (99::nat) = CHR ''c''"
  "char_of (100::nat) = CHR ''d''" "char_of (101::nat) = CHR ''e''"
  by code_simp+

lemma upper_SYMBOLS: "upper SYMBOLS = ''ABCDE''"
  by (simp add: upper_def SYMBOLS_def upper_char_def char_of_codes)

lemma lower_char_codes:
  "lower_char CHR ''A'' = CHR ''a''" "lower_char CHR ''B'' = CHR ''b''"
  "lower_char CHR ''C'' = CHR ''c''" "lower_char CHR ''D'' = CHR ''d''"
  "lower_char CHR ''E'' = CHR ''e''"
  by (simp_all add: lower_char_def char_of_codes)

lemma rule_aaB: "rule_of_word ''aaB'' = (Counter ''aa'', Counter ''b'')"
  unfolding rule_of_word_def upper_SYMBOLS by (simp add: SYMBOLS_def lower_char_codes)

lemma rule_aB: "rule_of_word ''aB'' = (Counter ''a'', Counter ''b'')"
  unfolding rule_of_word_def upper_SYMBOLS by (simp add: SYMBOLS_def lower_char_codes)

lemma rule_ABC: "rule_of_word ''ABC'' = (empty_counter, Counter ''abc'')"
  unfolding rule_of_word_def upper_SYMBOLS
  by (simp add: SYMBOLS_def lower_char_codes Counter_def empty_counter_def)

lemma check_rules_Some:
  "check_rules rules = Some e \<longleftrightarrow>
     e = RulesWithoutOutgoing \<and> (\<exists>rule\<in>set rules. fst rule = empty_counter)"
  by (induction rules) auto

lemma read_ABC:
  "read_rules [''prog'' \<mapsto> [''# a rule that takes nothing out'', ''aB ABC'']] [''prog''] =
     Inr [(Counter ''a'', Counter ''b''), (empty_counter, Counter ''abc'')]"
  by (simp add: rules_of_line_def str_split_def isspace_def rule_ABC rule_aB)

section \<open>Passes and runs\<close>

lemma reaches_loop:
  "reaches rules opts c k c' \<Longrightarrow> loop rules opts c = loop rules opts c'"
  by (induction rule: reaches.induct) (simp_all add: loop_continue)

lemma pass_counts:
  "pass rules opts (state, hist, out, n) = Some r \<Longrightarrow>
   (\<forall>state' hist' out' n'. r = Inl (state', hist', out', n') \<longrightarrow> n' = Suc n) \<and>
   (\<forall>out' n' x. r = Inr (out', n', x) \<longrightarrow> n' = Suc n)"
  by (auto simp: pass_def bind_eq_Some_conv split: if_splits option.splits)

lemma reaches_counts:
  "reaches rules opts c k c' \<Longrightarrow> snd (snd (snd c')) = snd (snd (snd c)) + k"
proof (induction rule: reaches.induct)
  case (reaches_here c)
  then show ?case by simp
next
  case (reaches_pass c k c' c'')
  obtain s h out n where c': "c' = (s, h, out, n)" by (cases c') auto
  obtain s2 h2 out2 n2 where c'': "c'' = (s2, h2, out2, n2)" by (cases c'') auto
  from pass_counts[OF reaches_pass.hyps(2)[unfolded c']] c'' have "n2 = Suc n" by simp
  with reaches_pass.IH c' c'' show ?case by simp
qed

lemma run_ends:
  assumes "reaches rules opts (initial_config state opts) k c"
    and "pass rules opts c = Some (Inr (out, n, r))"
  shows "run rules state opts = Some (out, n, r) \<and> n = Suc k"
proof -
  obtain s h out0 n0 where c: "c = (s, h, out0, n0)" by (cases c) auto
  from reaches_counts[OF assms(1)] c have "n0 = k" by (simp add: initial_config_def)
  moreover from pass_counts[OF assms(2)[unfolded c]] have "n = Suc n0" by simp
  moreover have "run rules state opts = Some (out, n, r)"
    using reaches_loop[OF assms(1)] loop_finish[OF assms(2)] by (simp add: run_def)
  ultimately show ?thesis by simp
qed

lemma step_aa_to_b_first:
  "step opts [(Counter ''aa'', Counter ''b'')] out (Counter ''aaaa'') =
   Some (out @ (if verbose opts
                then [PrintRule (Counter ''aa'') (Counter ''b''),
                      PrintRule (Counter ''aa'') (Counter ''b'')] else []),
         Counter ''bb'', False)"
  by (simp add: step_def apply_rule_fire apply_rule_stop counter_eval)

lemma step_aa_to_b_second:
  "step opts [(Counter ''aa'', Counter ''b'')] out (Counter ''bb'') = Some (out, Counter ''bb'', True)"
  by (simp add: step_def apply_rule_fire apply_rule_stop counter_eval)

lemma run_aa_to_b:
  "run [(Counter ''aa'', Counter ''b'')] (Counter ''aaaa'') \<lparr>verbose = v, detect_loops = False\<rparr> =
   Some (if v then [PrintState (Counter ''aaaa''), PrintRule (Counter ''aa'') (Counter ''b''),
                    PrintRule (Counter ''aa'') (Counter ''b''), PrintState (Counter ''bb'')] else [],
         2, Inr (Counter ''bb''))"
proof -
  let ?rules = "[(Counter ''aa'', Counter ''b'')]"
  let ?opts = "\<lparr>verbose = v, detect_loops = False\<rparr>"
  let ?out1 = "if v then [PrintState (Counter ''aaaa''), PrintRule (Counter ''aa'') (Counter ''b''),
                    PrintRule (Counter ''aa'') (Counter ''b'')] else []"
  let ?out2 = "if v then [PrintState (Counter ''aaaa''), PrintRule (Counter ''aa'') (Counter ''b''),
                    PrintRule (Counter ''aa'') (Counter ''b''), PrintState (Counter ''bb'')] else []"
  have p1: "pass ?rules ?opts (Counter ''aaaa'', [], [], 0) = Some (Inl (Counter ''bb'', [], ?out1, 1))"
    by (simp add: pass_def step_aa_to_b_first)
  have p2: "pass ?rules ?opts (Counter ''bb'', [], ?out1, 1) = Some (Inr (?out2, 2, Inr (Counter ''bb'')))"
    by (simp add: pass_def step_aa_to_b_second)
  have "run ?rules (Counter ''aaaa'') ?opts = loop ?rules ?opts (Counter ''aaaa'', [], [], 0)"
    by (simp add: run_def initial_config_def)
  also have "\<dots> = loop ?rules ?opts (Counter ''bb'', [], ?out1, 1)"
    by (rule loop_continue[OF p1])
  also have "\<dots> = Some (?out2, 2, Inr (Counter ''bb''))"
    by (rule loop_finish[OF p2])
  finally show ?thesis .
qed

lemma read_aaB: "read_rules [''prog'' \<mapsto> [''aaB'']] [''prog''] = Inr [(Counter ''aa'', Counter ''b'')]"
  by (simp add: rules_of_line_def str_split_def isspace_def rule_aaB)

lemma initial_aaaa: "initial_state ''aaaa'' = Counter ''aaaa''"
  by (simp add: initial_state_def SYMBOLS_def)

lemma not_empty_aa: "Counter ''aa'' \<noteq> empty_counter"
  by (simp add: counter_eval)


lemma pass_a_to_b_first:
  "pass [(Counter ''a'', Counter ''b'')] \<lparr>verbose = False, detect_loops = False\<rparr>
     (Counter ''a'', [], [], 0) = Some (Inl (Counter ''b'', [], [], Suc 0))"
  by (simp add: pass_def step_a_to_b_first)

lemma pass_a_to_b_second:
  "pass [(Counter ''a'', Counter ''b'')] \<lparr>verbose = False, detect_loops = False\<rparr>
     (Counter ''b'', [], [], Suc 0) = Some (Inr ([], Suc (Suc 0), Inr (Counter ''b'')))"
  by (simp add: pass_def step_a_to_b_second)

lemma reaches_a_to_b:
  "reaches [(Counter ''a'', Counter ''b'')] \<lparr>verbose = False, detect_loops = False\<rparr>
     (initial_config (Counter ''a'') \<lparr>verbose = False, detect_loops = False\<rparr>) (Suc 0)
     (Counter ''b'', [], [], Suc 0)"
  unfolding initial_config_def
  using reaches_pass[OF reaches_here pass_a_to_b_first] by simp

section \<open>Counts are never negative\<close>

lemma step_nonneg: "step opts rules out state = Some (out', state', e) \<Longrightarrow> nonneg state'"
  by (auto simp: step_def bind_eq_Some_conv nonneg_counter_add)

lemma apply_rule_events:
  assumes "apply_rule opts outgoing incoming ps = Some ps'"
  shows "nonneg outgoing \<and> nonneg incoming \<and> list_all event_nonneg (fst ps) \<longrightarrow>
         list_all event_nonneg (fst ps')"
proof (rule apply_rule.raw_induct
    [where P = "\<lambda>opts outgoing incoming ps ps'.
        nonneg outgoing \<and> nonneg incoming \<and> list_all event_nonneg (fst ps) \<longrightarrow>
         list_all event_nonneg (fst ps')", OF _ assms], goal_cases)
  case (1 f opts outgoing incoming ps ps')
  obtain out state to_add e where ps: "ps = (out, state, to_add, e)" by (cases ps) auto
  show ?case
  proof (cases "counter_add (counter_sub state outgoing) outgoing = state")
    case True
    with 1(2) ps have "f opts outgoing incoming
        (out @ (if verbose opts then [PrintRule outgoing incoming] else []),
         counter_sub state outgoing, counter_add to_add incoming, False) = Some ps'"
      by simp
    from 1(1)[OF this] ps show ?thesis by simp
  next
    case False
    with 1(2) ps show ?thesis by simp
  qed
qed

lemma for_rules_events:
  "for_rules opts rules ps = Some ps' \<Longrightarrow> rules_nonneg rules \<Longrightarrow>
   list_all event_nonneg (fst ps) \<Longrightarrow> list_all event_nonneg (fst ps')"
proof (induction rules arbitrary: ps)
  case Nil
  then show ?case by simp
next
  case (Cons rule rules)
  obtain outgoing incoming where rule: "rule = (outgoing, incoming)" by (cases rule) auto
  from Cons.prems(1) rule obtain mid where
    mid: "apply_rule opts outgoing incoming ps = Some mid" and
    rest: "for_rules opts rules mid = Some ps'"
    by (auto simp: bind_eq_Some_conv)
  from apply_rule_events[OF mid] Cons.prems(2,3) rule have "list_all event_nonneg (fst mid)"
    by (simp add: rules_nonneg_def)
  with Cons.IH[OF rest] Cons.prems(2) show ?case by (simp add: rules_nonneg_def)
qed

lemma step_events:
  assumes "step opts rules out state = Some (out', state', e)" "rules_nonneg rules"
    "list_all event_nonneg out"
  shows "list_all event_nonneg out'"
proof -
  from assms(1) obtain s t where
    "for_rules opts rules (out, state, empty_counter, True) = Some (out', s, t, e)"
    by (auto simp: step_def bind_eq_Some_conv)
  from for_rules_events[OF this assms(2)] assms(3) show ?thesis by simp
qed

lemma pass_nonneg:
  assumes "pass rules opts c = Some r" "rules_nonneg rules" "config_nonneg c"
  shows "case r of Inl c' \<Rightarrow> config_nonneg c' | Inr res \<Rightarrow> result_nonneg res"
proof -
  obtain state hist out n where c: "c = (state, hist, out, n)" by (cases c) auto
  from assms(1) c obtain out' state' e where
    st: "step opts rules (out @ (if verbose opts then [PrintState state] else [])) state =
           Some (out', state', e)"
    by (auto simp: pass_def bind_eq_Some_conv)
  from assms(3) c have "list_all event_nonneg (out @ (if verbose opts then [PrintState state] else []))"
    by (simp add: config_nonneg_def)
  from step_events[OF st assms(2) this] have out': "list_all event_nonneg out'" .
  from step_nonneg[OF st] have state': "nonneg state'" .
  have "error_nonneg e'" if "check_previous state' hist = Some e'" for e'
  proof -
    from check_previous_Some[OF that] obtain prev where
      "e' = FoundIncreasingSequence prev state'" "prev \<in> set hist" by auto
    with assms(3) c state' show ?thesis
      by (auto simp: config_nonneg_def list_all_iff)
  qed
  with assms(1,3) c st out' state' show ?thesis
    by (auto simp: pass_def config_nonneg_def result_nonneg_def
             split: option.splits if_splits)
qed

lemma reaches_nonneg:
  "reaches rules opts c k c' \<Longrightarrow> rules_nonneg rules \<Longrightarrow> config_nonneg c \<Longrightarrow> config_nonneg c'"
proof (induction rule: reaches.induct)
  case (reaches_here c)
  then show ?case by simp
next
  case (reaches_pass c k c' c'')
  from pass_nonneg[OF reaches_pass.hyps(2) reaches_pass.prems(1)] reaches_pass.IH reaches_pass.prems
  show ?case by simp
qed

lemma reaches_front:
  "reaches rules opts c1 k c' \<Longrightarrow> pass rules opts c = Some (Inl c1) \<Longrightarrow>
   reaches rules opts c (Suc k) c'"
proof (induction rule: reaches.induct)
  case (reaches_here c1)
  from reaches_pass[OF reaches.reaches_here this] show ?case .
next
  case (reaches_pass c1 k c' c'')
  from reaches.reaches_pass[OF reaches_pass.IH[OF reaches_pass.prems] reaches_pass.hyps(2)]
  show ?case .
qed

lemma loop_Some_reaches:
  assumes "loop rules opts c = Some res"
  shows "\<exists>k c'. reaches rules opts c k c' \<and> pass rules opts c' = Some (Inr res)"
proof (rule loop.raw_induct
    [where P = "\<lambda>rules opts c res.
        \<exists>k c'. reaches rules opts c k c' \<and> pass rules opts c' = Some (Inr res)",
     OF _ assms], goal_cases)
  case (1 f rules opts c res)
  from 1(2) obtain r where r: "pass rules opts c = Some r"
    and k: "(case r of Inl c' \<Rightarrow> f rules opts c' | Inr res \<Rightarrow> Some res) = Some res"
    by (auto simp: bind_eq_Some_conv)
  show ?case
  proof (cases r)
    case (Inl c1)
    with k have "f rules opts c1 = Some res" by simp
    from 1(1)[OF this] obtain k' c' where
      "reaches rules opts c1 k' c'" "pass rules opts c' = Some (Inr res)" by auto
    with reaches_front[OF this(1)] r Inl show ?thesis by blast
  next
    case (Inr res')
    with k r have "pass rules opts c = Some (Inr res)" by simp
    with reaches_here show ?thesis by blast
  qed
qed

lemma initial_config_nonneg: "nonneg state \<Longrightarrow> config_nonneg (initial_config state opts)"
  by (simp add: config_nonneg_def initial_config_def)

lemma run_nonneg:
  assumes "run rules state opts = Some res" "nonneg state" "rules_nonneg rules"
  shows "result_nonneg res"
proof -
  from assms(1) have "loop rules opts (initial_config state opts) = Some res"
    by (simp add: run_def)
  from loop_Some_reaches[OF this] obtain k c where
    r: "reaches rules opts (initial_config state opts) k c" and
    p: "pass rules opts c = Some (Inr res)"
    by blast
  from reaches_nonneg[OF r assms(3) initial_config_nonneg[OF assms(2)]] have "config_nonneg c" .
  from pass_nonneg[OF p assms(3) this] show ?thesis by simp
qed

lemma rules_nonneg_take: "rules_nonneg rules \<Longrightarrow> rules_nonneg (take i rules)"
  by (auto simp: rules_nonneg_def list_all_iff dest: in_set_takeD)

lemma rules_nonneg_snd: "rules_nonneg rules \<Longrightarrow> list_all (\<lambda>rule. nonneg (snd rule)) rules"
  by (auto simp: rules_nonneg_def list_all_iff)

section \<open>The history of loop detection\<close>

lemma check_previous_find:
  "nonneg state \<Longrightarrow>
   check_previous state hist =
     map_option (\<lambda>prev. FoundIncreasingSequence prev state) (find (contains state) hist)"
  by (induction hist) (simp_all add: guard_iff)

lemma pass_history:
  assumes "detect_loops opts" "pass rules opts (cur, hist, out, n) = Some (Inl (cur', hist', out', n'))"
  shows "hist' = hist @ [cur']"
  using assms
  by (auto simp: pass_def bind_eq_Some_conv split: option.splits if_splits)

lemma reaches_history:
  assumes "reaches rules opts c k c'" "detect_loops opts"
  shows "\<forall>state cur hist out n. c = (state, [state], [], 0) \<and> c' = (cur, hist, out, n) \<longrightarrow>
           hist \<noteq> [] \<and> hd hist = state \<and> last hist = cur \<and> length hist = Suc k"
  using assms
proof (induction rule: reaches.induct)
  case (reaches_here c)
  then show ?case by auto
next
  case (reaches_pass c k c' c'')
  show ?case
  proof (intro allI impI, elim conjE)
    fix state cur hist out n
    assume c: "c = (state, [state], [], 0)" and c'': "c'' = (cur, hist, out, n)"
    obtain cur1 hist1 out1 n1 where c': "c' = (cur1, hist1, out1, n1)" by (cases c') auto
    from reaches_pass.IH[OF reaches_pass.prems] c c'
    have h1: "hist1 \<noteq> []" "hd hist1 = state" "length hist1 = Suc k" by auto
    from pass_history[OF reaches_pass.prems reaches_pass.hyps(2)[unfolded c' c'']]
    have "hist = hist1 @ [cur]" .
    with h1 show "hist \<noteq> [] \<and> hd hist = state \<and> last hist = cur \<and> length hist = Suc (Suc k)"
      by simp
  qed
qed

lemma pass_a_to_b_detect_first:
  "pass [(Counter ''a'', Counter ''b'')] \<lparr>verbose = False, detect_loops = True\<rparr>
     (Counter ''a'', [Counter ''a''], [], 0) =
   Some (Inl (Counter ''b'', [Counter ''a'', Counter ''b''], [], Suc 0))"
  by (simp add: pass_def step_a_to_b_first counter_eval)

section \<open>The step returns; what it does not look at; what it prints\<close>

lemma apply_rule_returns:
  assumes "0 < outgoing k"
  shows "\<exists>ps'. apply_rule opts outgoing incoming (out, s, t, e) = Some ps'"
proof (induction "nat (s k)" arbitrary: out s t e rule: less_induct)
  case less
  show ?case
  proof (cases "counter_add (counter_sub s outgoing) outgoing = s")
    case True
    then have "0 \<le> s k" "outgoing k \<le> s k"
      by (simp_all add: guard_iff nonneg_def contains_def)
    with assms have "nat (counter_sub s outgoing k) < nat (s k)"
      by (simp add: counter_sub_apply)
    from less[of "counter_sub s outgoing"
        "out @ (if verbose opts then [PrintRule outgoing incoming] else [])"
        "counter_add t incoming" False, OF this]
    show ?thesis by (simp only: apply_rule_fire[OF True])
  next
    case False
    then show ?thesis by (intro exI[of _ "(out, s, t, e)"]) (simp add: apply_rule_stop)
  qed
qed

lemma for_rules_returns:
  "list_all (\<lambda>rule. \<exists>k. 0 < fst rule k) rules \<Longrightarrow> \<exists>ps'. for_rules opts rules ps = Some ps'"
proof (induction rules arbitrary: ps)
  case Nil
  show ?case by (intro exI[of _ ps]) simp
next
  case (Cons rule rules)
  obtain outgoing incoming where rule: "rule = (outgoing, incoming)" by (cases rule) auto
  obtain out s t e where ps: "ps = (out, s, t, e)" by (cases ps) auto
  from Cons.prems rule obtain k where "0 < outgoing k" by auto
  from apply_rule_returns[of outgoing k opts incoming out s t e, OF this] ps obtain mid where
    "apply_rule opts outgoing incoming ps = Some mid" by blast
  moreover from Cons.prems have "list_all (\<lambda>rule. \<exists>k. 0 < fst rule k) rules" by simp
  from Cons.IH[OF this, of mid] obtain ps' where "for_rules opts rules mid = Some ps'"
    by blast
  ultimately show ?case using rule by (intro exI[of _ ps']) simp
qed

lemma step_returns:
  assumes "list_all (\<lambda>rule. \<exists>k. 0 < fst rule k) rules"
  shows "\<exists>r. step opts rules out state = Some r"
proof -
  from for_rules_returns[OF assms] obtain ps' where
    "for_rules opts rules (out, state, empty_counter, True) = Some ps'" by blast
  then show ?thesis
    by (cases ps')
      (auto simp: step_def intro!: exI[of _ "(fst ps', counter_add (fst (snd ps')) (fst (snd (snd ps'))), snd (snd (snd ps')))"])
qed

lemma apply_rule_same_state:
  assumes "apply_rule opts outgoing incoming ps = Some ps'"
  shows "\<forall>out s t e out2 t2. ps = (out, s, t, e) \<longrightarrow>
           (\<exists>out2' t2'. apply_rule opts2 outgoing incoming2 (out2, s, t2, e) =
              Some (out2', fst (snd ps'), t2', snd (snd (snd ps'))))"
proof (rule apply_rule.raw_induct
    [where P = "\<lambda>opts outgoing incoming ps ps'.
        \<forall>out s t e out2 t2. ps = (out, s, t, e) \<longrightarrow>
           (\<exists>out2' t2'. apply_rule opts2 outgoing incoming2 (out2, s, t2, e) =
              Some (out2', fst (snd ps'), t2', snd (snd (snd ps'))))",
     OF _ assms], goal_cases)
  case (1 f opts outgoing incoming ps ps')
  show ?case
  proof (intro allI impI)
    fix out s t e out2 t2
    assume ps: "ps = (out, s, t, e)"
    show "\<exists>out2' t2'. apply_rule opts2 outgoing incoming2 (out2, s, t2, e) =
              Some (out2', fst (snd ps'), t2', snd (snd (snd ps')))"
    proof (cases "counter_add (counter_sub s outgoing) outgoing = s")
      case True
      with 1(2) ps have "f opts outgoing incoming
          (out @ (if verbose opts then [PrintRule outgoing incoming] else []),
           counter_sub s outgoing, counter_add t incoming, False) = Some ps'"
        by simp
      from 1(1)[OF this, rule_format, OF refl,
          of "out2 @ (if verbose opts2 then [PrintRule outgoing incoming2] else [])"
             "counter_add t2 incoming2"]
      show ?thesis by (simp add: apply_rule_fire[OF True])
    next
      case False
      with 1(2) ps have "ps' = ps" by simp
      with ps False show ?thesis by (simp add: apply_rule_stop)
    qed
  qed
qed

lemma for_rules_same_state:
  "for_rules opts rules (out, s, t, e) = Some (out', s', t', e') \<Longrightarrow>
   map fst rules2 = map fst rules \<Longrightarrow>
   \<exists>out2' t2'. for_rules opts2 rules2 (out2, s, t2, e) = Some (out2', s', t2', e')"
proof (induction rules arbitrary: rules2 out s t e out2 t2)
  case Nil
  then show ?case by simp
next
  case (Cons rule rules)
  obtain outgoing incoming where rule: "rule = (outgoing, incoming)" by (cases rule) auto
  from Cons.prems(2) rule obtain incoming2 rest2 where
    rules2: "rules2 = (outgoing, incoming2) # rest2" and rest2: "map fst rest2 = map fst rules"
    by (cases rules2) auto
  from Cons.prems(1) rule obtain out1 s1 t1 e1 where
    mid: "apply_rule opts outgoing incoming (out, s, t, e) = Some (out1, s1, t1, e1)" and
    rest: "for_rules opts rules (out1, s1, t1, e1) = Some (out', s', t', e')"
    by (auto simp: bind_eq_Some_conv)
  from apply_rule_same_state[OF mid, rule_format, OF refl, of opts2 incoming2 out2 t2]
  obtain out3 t3 where
    "apply_rule opts2 outgoing incoming2 (out2, s, t2, e) = Some (out3, s1, t3, e1)"
    by auto
  moreover from Cons.IH[OF rest rest2, of out3 t3] obtain out2' t2' where
    "for_rules opts2 rest2 (out3, s1, t3, e1) = Some (out2', s', t2', e')" by blast
  ultimately show ?case using rules2 by simp
qed

lemma for_rules_ignores_incoming:
  assumes "map fst rules2 = map fst rules"
  shows "map_option (\<lambda>(out', s', t', e'). (s', e')) (for_rules opts rules (out, s, t, e)) =
         map_option (\<lambda>(out', s', t', e'). (s', e')) (for_rules opts2 rules2 (out2, s, t2, e))"
proof (cases "for_rules opts rules (out, s, t, e)")
  case None
  have "for_rules opts2 rules2 (out2, s, t2, e) = None"
  proof (rule ccontr)
    assume "for_rules opts2 rules2 (out2, s, t2, e) \<noteq> None"
    then obtain out2' s' t2' e' where
      "for_rules opts2 rules2 (out2, s, t2, e) = Some (out2', s', t2', e')" by auto
    from for_rules_same_state[OF this assms[symmetric], of opts out t] None show False by simp
  qed
  with None show ?thesis by simp
next
  case (Some ps')
  obtain out' s' t' e' where ps': "ps' = (out', s', t', e')" by (cases ps') auto
  from for_rules_same_state[OF Some[unfolded ps'] assms, of opts2 out2 t2] Some ps'
  show ?thesis by auto
qed

lemma apply_rule_applications:
  assumes "apply_rule opts outgoing incoming ps = Some ps'"
  shows "\<exists>apps. fst ps' = fst ps @ apps \<and> set apps \<subseteq> {PrintRule outgoing incoming} \<and>
           (verbose opts \<and> snd (snd (snd ps)) \<and> \<not> snd (snd (snd ps')) \<longrightarrow> apps \<noteq> [])"
proof (rule apply_rule.raw_induct
    [where P = "\<lambda>opts outgoing incoming ps ps'.
        \<exists>apps. fst ps' = fst ps @ apps \<and> set apps \<subseteq> {PrintRule outgoing incoming} \<and>
           (verbose opts \<and> snd (snd (snd ps)) \<and> \<not> snd (snd (snd ps')) \<longrightarrow> apps \<noteq> [])",
     OF _ assms], goal_cases)
  case (1 f opts outgoing incoming ps ps')
  obtain out state to_add e where ps: "ps = (out, state, to_add, e)" by (cases ps) auto
  show ?case
  proof (cases "counter_add (counter_sub state outgoing) outgoing = state")
    case True
    let ?ev = "if verbose opts then [PrintRule outgoing incoming] else []"
    from True 1(2) ps have "f opts outgoing incoming
        (out @ ?ev, counter_sub state outgoing, counter_add to_add incoming, False) = Some ps'"
      by simp
    from 1(1)[OF this] obtain apps where
      "fst ps' = (out @ ?ev) @ apps" "set apps \<subseteq> {PrintRule outgoing incoming}" by auto
    then show ?thesis using ps
      by (intro exI[of _ "?ev @ apps"]) auto
  next
    case False
    with 1(2) ps have "ps' = ps" by simp
    then show ?thesis by (intro exI[of _ "[]"]) simp
  qed
qed

lemma for_rules_applications:
  "for_rules opts rules (out, s, t, e) = Some (out', s', t', e') \<Longrightarrow>
   \<exists>apps. out' = out @ apps \<and>
     set apps \<subseteq> (\<lambda>rule. PrintRule (fst rule) (snd rule)) ` set rules \<and>
     (verbose opts \<and> e \<and> \<not> e' \<longrightarrow> apps \<noteq> [])"
proof (induction rules arbitrary: out s t e)
  case Nil
  then show ?case by simp
next
  case (Cons rule rules)
  obtain outgoing incoming where rule: "rule = (outgoing, incoming)" by (cases rule) auto
  from Cons.prems(1) rule obtain out1 s1 t1 e1 where
    mid: "apply_rule opts outgoing incoming (out, s, t, e) = Some (out1, s1, t1, e1)" and
    rest: "for_rules opts rules (out1, s1, t1, e1) = Some (out', s', t', e')"
    by (auto simp: bind_eq_Some_conv)
  from apply_rule_applications[OF mid] obtain a1 where
    a1: "out1 = out @ a1" "set a1 \<subseteq> {PrintRule outgoing incoming}"
      "verbose opts \<and> e \<and> \<not> e1 \<longrightarrow> a1 \<noteq> []"
    by auto
  from Cons.IH[OF rest] obtain a2 where
    a2: "out' = out1 @ a2" "set a2 \<subseteq> (\<lambda>rule. PrintRule (fst rule) (snd rule)) ` set rules"
      "verbose opts \<and> e1 \<and> \<not> e' \<longrightarrow> a2 \<noteq> []"
    by auto
  from a1 a2 rule show ?case
    by (intro exI[of _ "a1 @ a2"]) auto
qed

lemma step_applications:
  assumes "verbose opts" "step opts rules out state = Some (out', state', end_flag)"
  shows "\<exists>apps. out' = out @ apps \<and>
     set apps \<subseteq> (\<lambda>rule. PrintRule (fst rule) (snd rule)) ` set rules \<and>
     (\<not> end_flag \<longleftrightarrow> apps \<noteq> [])"
proof -
  from assms(2) obtain s t where
    f: "for_rules opts rules (out, state, empty_counter, True) = Some (out', s, t, end_flag)"
    by (auto simp: step_def bind_eq_Some_conv)
  from for_rules_applications[OF f] assms(1) obtain apps where
    apps: "out' = out @ apps" "set apps \<subseteq> (\<lambda>rule. PrintRule (fst rule) (snd rule)) ` set rules"
      "\<not> end_flag \<longrightarrow> apps \<noteq> []"
    by auto
  have "apps = []" if "end_flag"
  proof -
    from f that have "for_rules opts rules (out, state, empty_counter, True) = Some (out', s, t, True)"
      by simp
    from for_rules_end[OF this] apps(1) show ?thesis by simp
  qed
  with apps show ?thesis by (intro exI[of _ apps]) auto
qed

section \<open>Runs without loop detection\<close>

text \<open>
  Without loop detection the first pass that fires no rule returns the state it
  started from, and a pass that fires a rule leads to the next pass.
\<close>

lemma run_returns_without_detection:
  assumes "\<not> detect_loops opts"
    and "reaches rules opts (initial_config state opts) k (cur, hist, out, n)"
    and "step opts rules (out @ (if verbose opts then [PrintState cur] else [])) cur =
           Some (out', state', True)"
  shows "run rules state opts = Some (out', Suc k, Inr state') \<and>
         state' = counter_add cur empty_counter \<and> (nonneg cur \<longrightarrow> state' = cur)"
proof -
  from assms(1,3) have "pass rules opts (cur, hist, out, n) = Some (Inr (out', Suc n, Inr state'))"
    by (simp add: pass_def)
  from run_ends[OF assms(2) this] have "run rules state opts = Some (out', Suc k, Inr state')"
    by simp
  moreover from step_end[OF assms(3)] have "state' = counter_add cur empty_counter" by simp
  ultimately show ?thesis by (simp add: counter_add_empty)
qed

lemma run_continues:
  assumes "reaches rules opts (initial_config state opts) k (cur, hist, out, n)"
    and "step opts rules (out @ (if verbose opts then [PrintState cur] else [])) cur =
           Some (out', state', False)"
    and "\<not> detect_loops opts"
  shows "reaches rules opts (initial_config state opts) (Suc k) (state', hist, out', Suc n)"
proof -
  from assms(2,3) have "pass rules opts (cur, hist, out, n) = Some (Inl (state', hist, out', Suc n))"
    by (simp add: pass_def)
  from reaches_pass[OF assms(1) this] show ?thesis .
qed

section \<open>Every subtraction is exact\<close>

lemma apply_rule_unfold:
  "apply_rule opts outgoing incoming (out, s, t, e) =
     (if nonneg s \<and> contains s outgoing
      then apply_rule opts outgoing incoming
             (out @ (if verbose opts then [PrintRule outgoing incoming] else []),
              subtract s outgoing, counter_add t incoming, False)
      else Some (out, s, t, e))"
proof (cases "nonneg s \<and> contains s outgoing")
  case True
  then have "counter_add (counter_sub s outgoing) outgoing = s" by (simp add: guard_iff)
  from apply_rule_fire[OF this] True show ?thesis by (simp add: counter_sub_exact)
next
  case False
  then have "counter_add (counter_sub s outgoing) outgoing \<noteq> s" by (simp add: guard_iff)
  then have "apply_rule opts outgoing incoming (out, s, t, e) = Some (out, s, t, e)"
    by (rule apply_rule_stop)
  with False show ?thesis by auto
qed

lemma apply_rule_exact_aux:
  assumes "apply_rule opts outgoing incoming ps = Some ps'"
  shows "\<forall>out s t e. ps = (out, s, t, e) \<longrightarrow>
           (\<exists>m. fst (snd ps') = (\<lambda>k. s k - int m * outgoing k) \<and>
                (\<forall>j<m. nonneg (\<lambda>k. s k - int j * outgoing k) \<and>
                        contains (\<lambda>k. s k - int j * outgoing k) outgoing) \<and>
                fst ps' = out @ (if verbose opts then replicate m (PrintRule outgoing incoming) else []) \<and>
                snd (snd (snd ps')) = (e \<and> m = 0))"
proof (rule apply_rule.raw_induct
    [where P = "\<lambda>opts outgoing incoming ps ps'.
        \<forall>out s t e. ps = (out, s, t, e) \<longrightarrow>
           (\<exists>m. fst (snd ps') = (\<lambda>k. s k - int m * outgoing k) \<and>
                (\<forall>j<m. nonneg (\<lambda>k. s k - int j * outgoing k) \<and>
                        contains (\<lambda>k. s k - int j * outgoing k) outgoing) \<and>
                fst ps' = out @ (if verbose opts then replicate m (PrintRule outgoing incoming) else []) \<and>
                snd (snd (snd ps')) = (e \<and> m = 0))",
     OF _ assms], goal_cases)
  case (1 f opts outgoing incoming ps ps')
  show ?case
  proof (intro allI impI)
    fix out s t e
    assume ps: "ps = (out, s, t, e)"
    let ?Q = "\<lambda>out s e m. fst (snd ps') = (\<lambda>k. s k - int m * outgoing k) \<and>
                (\<forall>j<m. nonneg (\<lambda>k. s k - int j * outgoing k) \<and>
                        contains (\<lambda>k. s k - int j * outgoing k) outgoing) \<and>
                fst ps' = out @ (if verbose opts then replicate m (PrintRule outgoing incoming) else []) \<and>
                snd (snd (snd ps')) = (e \<and> m = 0)"
    show "\<exists>m. ?Q out s e m"
    proof (cases "counter_add (counter_sub s outgoing) outgoing = s")
      case True
      then have ns: "nonneg s" and cs: "contains s outgoing" by (simp_all add: guard_iff)
      let ?s1 = "counter_sub s outgoing"
      let ?out1 = "out @ (if verbose opts then [PrintRule outgoing incoming] else [])"
      have s1: "?s1 = (\<lambda>k. s k - outgoing k)"
        using counter_sub_exact[OF cs] by (simp add: subtract_def)
      from True 1(2) ps have "f opts outgoing incoming
          (?out1, ?s1, counter_add t incoming, False) = Some ps'"
        by simp
      from 1(1)[OF this, rule_format, OF refl] obtain m where m: "?Q ?out1 ?s1 False m" by blast
      have shift: "(\<lambda>k. ?s1 k - int j * outgoing k) = (\<lambda>k. s k - int (Suc j) * outgoing k)" for j
        by (simp add: s1 fun_eq_iff algebra_simps)
      have "?Q out s e (Suc m)"
      proof (intro conjI allI impI)
        from m shift[of m] show "fst (snd ps') = (\<lambda>k. s k - int (Suc m) * outgoing k)" by simp
      next
        fix j assume j: "j < Suc m"
        show "nonneg (\<lambda>k. s k - int j * outgoing k)"
        proof (cases j)
          case 0
          with ns show ?thesis by simp
        next
          case (Suc j')
          with j m have "nonneg (\<lambda>k. ?s1 k - int j' * outgoing k)" by simp
          with shift[of j'] Suc show ?thesis by simp
        qed
        show "contains (\<lambda>k. s k - int j * outgoing k) outgoing"
        proof (cases j)
          case 0
          with cs show ?thesis by simp
        next
          case (Suc j')
          with j m have "contains (\<lambda>k. ?s1 k - int j' * outgoing k) outgoing" by simp
          with shift[of j'] Suc show ?thesis by simp
        qed
      next
        from m show "fst ps' = out @ (if verbose opts then replicate (Suc m) (PrintRule outgoing incoming) else [])"
          by simp
      next
        from m show "snd (snd (snd ps')) = (e \<and> Suc m = 0)" by simp
      qed
      then show ?thesis ..
    next
      case False
      with 1(2) ps have "ps' = ps" by simp
      with ps have "?Q out s e 0" by simp
      then show ?thesis ..
    qed
  qed
qed

lemma apply_rule_exact:
  assumes "apply_rule opts outgoing incoming (out, s, t, e) = Some (out', s', t', e')"
  shows "\<exists>m. s' = (\<lambda>k. s k - int m * outgoing k) \<and>
              (\<forall>j<m. nonneg (\<lambda>k. s k - int j * outgoing k) \<and>
                      contains (\<lambda>k. s k - int j * outgoing k) outgoing) \<and>
              out' = out @ (if verbose opts then replicate m (PrintRule outgoing incoming) else []) \<and>
              e' = (e \<and> m = 0)"
  using apply_rule_exact_aux[OF assms, rule_format, OF refl] by simp

lemma apply_rule_a_once:
  "apply_rule \<lparr>verbose = False, detect_loops = False\<rparr> (Counter ''a'') (Counter ''b'')
     ([], Counter ''a'', empty_counter, True) =
   Some ([], empty_counter, Counter ''b'', False)"
  by (simp add: apply_rule_fire apply_rule_stop counter_eval)

section \<open>A rule that doubles\<close>

lemma step_a_to_aa:
  "step opts [(Counter ''a'', Counter ''aa'')] out (Counter ''a'') =
   Some (out @ (if verbose opts then [PrintRule (Counter ''a'') (Counter ''aa'')] else []),
         Counter ''aa'', False)"
  by (simp add: step_def apply_rule_fire apply_rule_stop counter_eval)

section \<open>The claims\<close>

text \<open>
  C1, where the program departs from it. The rule \<^verbatim>\<open>aB\<close> on the input "a": without
  loop detection the second pass fires no rule and \<^verbatim>\<open>run\<close> returns the state of one
  b; with loop detection the same second pass raises "Found increasing sequence" for
  that state against itself, and nothing is returned.
\<close>

theorem halting_run_raises_under_detection:
  "run [(Counter ''a'', Counter ''b'')] (Counter ''a'') \<lparr>verbose = False, detect_loops = False\<rparr> =
     Some ([], 2, Inr (Counter ''b'')) \<and>
   run [(Counter ''a'', Counter ''b'')] (Counter ''a'') \<lparr>verbose = False, detect_loops = True\<rparr> =
     Some ([], 2, Inl (FoundIncreasingSequence (Counter ''b'') (Counter ''b'')))"
  using run_a_to_b[of False] run_a_to_b_detect by simp

text \<open>
  C2, as the program has it. Of the text on standard input only the lowercase
  letters a to e count: the initial state has, for each of them, the number of its
  occurrences, and 0 for every other character, the uppercase letters A to E among
  them. For the input "A" the initial state is empty; it is not the state of the
  input "a".
\<close>

theorem initial_state_lowercase_only:
  "initial_state contents k = (if k \<in> set ''abcde'' then int (count_list contents k) else 0)"
  by (simp add: initial_state_def Counter_def count_list_filter SYMBOLS_def)

theorem initial_state_uppercase_ignored:
  "initial_state ''A'' = empty_counter \<and> initial_state ''a'' = Counter ''a'' \<and>
   initial_state ''A'' \<noteq> initial_state ''a''"
  by (simp add: initial_state_def SYMBOLS_def Counter_def empty_counter_def fun_eq_iff)

text \<open>
  C3. With loop detection on, \<^verbatim>\<open>run\<close> never returns a state: a run that ends, ends
  with the exception "Found increasing sequence", raised for an entry \<open>prev\<close> of the
  history that the state \<open>cur\<close> contains. On the pass where no rule fires the state is
  the last entry of the history, and the history is checked before \<^verbatim>\<open>end\<close> is.
\<close>

theorem run_detect_never_returns:
  assumes "detect_loops opts" and "run rules state opts = Some (out, n, r)"
  shows "\<exists>prev cur. r = Inl (FoundIncreasingSequence prev cur) \<and> contains cur prev"
proof -
  from assms(2) have "loop rules opts (initial_config state opts) = Some (out, n, r)"
    by (simp add: run_def)
  from loop_detect[OF this] assms(1) show ?thesis
    by (simp add: hist_ok_def initial_config_def)
qed

theorem run_detect_never_returns_witness:
  "detect_loops \<lparr>verbose = False, detect_loops = True\<rparr> \<and>
   run [(Counter ''a'', Counter ''b'')] (Counter ''a'') \<lparr>verbose = False, detect_loops = True\<rparr> =
     Some ([], 2, Inl (FoundIncreasingSequence (Counter ''b'') (Counter ''b''))) \<and>
   (\<exists>prev cur. (Inl (FoundIncreasingSequence (Counter ''b'') (Counter ''b'')) :: error + counter) =
       Inl (FoundIncreasingSequence prev cur) \<and> contains cur prev)"
  using run_detect_never_returns[of "\<lparr>verbose = False, detect_loops = True\<rparr>"
      "[(Counter ''a'', Counter ''b'')]" "Counter ''a''" "[]" 2
      "Inl (FoundIncreasingSequence (Counter ''b'') (Counter ''b''))"]
    run_a_to_b_detect
  by simp

text \<open>
  C4. On a state without negative counts and rules whose incoming multisets have
  none, one step of the program is the step of the specification: for each rule in
  order, while the state contains the outgoing multiset, subtract it and add the
  incoming multiset to \<open>pending\<close>; then add \<open>pending\<close> to the state; \<open>fired\<close> is the
  negation of \<^verbatim>\<open>end\<close>. The step returns when every outgoing multiset has a positive
  count. The state left by the rules and \<^verbatim>\<open>end\<close> are the same for any incoming
  multisets and any \<open>pending\<close>. With \<^verbatim>\<open>verbose\<close> the step prints one line for each
  application, of a rule of the list, and \<^verbatim>\<open>end\<close> is false exactly when it printed
  one.
\<close>

theorem step_engine_contract:
  assumes "nonneg state" and "list_all (\<lambda>rule. nonneg (snd rule)) rules"
  shows "map_option (\<lambda>(out', state', end_flag). (state', \<not> end_flag)) (step opts rules out state) =
           spec_step rules state \<and>
         (list_all (\<lambda>rule. \<exists>k. 0 < fst rule k) rules \<longrightarrow>
            (\<exists>r. step opts rules out state = Some r)) \<and>
         (map fst rules2 = map fst rules \<longrightarrow>
            map_option (\<lambda>(out', s', t', e'). (s', e'))
              (for_rules opts rules (out, state, empty_counter, True)) =
            map_option (\<lambda>(out', s', t', e'). (s', e'))
              (for_rules opts rules2 (out, state, pending, True))) \<and>
         (verbose opts \<and> step opts rules out state = Some (out', state', end_flag) \<longrightarrow>
            (\<exists>apps. out' = out @ apps \<and>
               set apps \<subseteq> (\<lambda>rule. PrintRule (fst rule) (snd rule)) ` set rules \<and>
               (\<not> end_flag \<longleftrightarrow> apps \<noteq> [])))"
proof (intro conjI impI)
  show "map_option (\<lambda>(out', state', end_flag). (state', \<not> end_flag)) (step opts rules out state) =
           spec_step rules state"
    by (rule step_spec_step[OF assms])
next
  assume "list_all (\<lambda>rule. \<exists>k. 0 < fst rule k) rules"
  then show "\<exists>r. step opts rules out state = Some r" by (rule step_returns)
next
  assume "map fst rules2 = map fst rules"
  then show "map_option (\<lambda>(out', s', t', e'). (s', e'))
              (for_rules opts rules (out, state, empty_counter, True)) =
            map_option (\<lambda>(out', s', t', e'). (s', e'))
              (for_rules opts rules2 (out, state, pending, True))"
    by (rule for_rules_ignores_incoming)
next
  assume "verbose opts \<and> step opts rules out state = Some (out', state', end_flag)"
  then show "\<exists>apps. out' = out @ apps \<and>
               set apps \<subseteq> (\<lambda>rule. PrintRule (fst rule) (snd rule)) ` set rules \<and>
               (\<not> end_flag \<longleftrightarrow> apps \<noteq> [])"
    using step_applications by blast
qed

theorem step_engine_contract_witness:
  "nonneg (Counter ''aaaa'') \<and> list_all (\<lambda>rule. nonneg (snd rule)) [(Counter ''aa'', Counter ''b'')] \<and>
   step \<lparr>verbose = True, detect_loops = False\<rparr> [(Counter ''aa'', Counter ''b'')] [] (Counter ''aaaa'') =
     Some ([PrintRule (Counter ''aa'') (Counter ''b''), PrintRule (Counter ''aa'') (Counter ''b'')],
           Counter ''bb'', False) \<and>
   spec_step [(Counter ''aa'', Counter ''b'')] (Counter ''aaaa'') = Some (Counter ''bb'', True)"
proof -
  have n: "nonneg (Counter ''aaaa'')" by (rule nonneg_Counter)
  have r: "list_all (\<lambda>rule. nonneg (snd rule)) [(Counter ''aa'', Counter ''b'')]"
    by (simp add: nonneg_Counter)
  from step_engine_contract[OF n r, of "\<lparr>verbose = True, detect_loops = False\<rparr>" "[]"]
  have "map_option (\<lambda>(out', state', end_flag). (state', \<not> end_flag))
          (step \<lparr>verbose = True, detect_loops = False\<rparr> [(Counter ''aa'', Counter ''b'')] []
             (Counter ''aaaa'')) =
        spec_step [(Counter ''aa'', Counter ''b'')] (Counter ''aaaa'')"
    by blast
  with n r show ?thesis by (simp add: step_aa_to_b_first)
qed

text \<open>
  C5. With loop detection on, the run starts with the history holding the initial
  state alone. At the head of a pass reached after \<open>k\<close> passes the history holds
  \<open>k + 1\<close> states, the initial one first and the current one last. The pass makes its
  step to a state \<open>state'\<close>. When the history has an entry that \<open>state'\<close> contains, the
  run ends there, after \<open>k + 1\<close> passes, with the exception that carries the first
  such entry \<open>prev\<close>, in the order of insertion, and \<open>state'\<close>. When it has none,
  \<open>state'\<close> is appended to the history and the run goes on from the configuration
  with that history: it is reached after \<open>k + 1\<close> passes, and what the run gives is
  what the loop gives from there.
\<close>

theorem loop_detection_contract:
  assumes "detect_loops opts"
  shows "run rules state opts = loop rules opts (state, [state], [], 0) \<and>
         (reaches rules opts (state, [state], [], 0) k (cur, hist, out, n) \<longrightarrow>
            hd hist = state \<and> last hist = cur \<and> length hist = Suc k \<and> n = k \<and>
            pass rules opts (cur, hist, out, n) =
              step opts rules (out @ (if verbose opts then [PrintState cur] else [])) cur \<bind>
                (\<lambda>(out', state', end_flag).
                   case find (contains state') hist of
                     Some prev \<Rightarrow> Some (Inr (out', Suc n, Inl (FoundIncreasingSequence prev state')))
                   | None \<Rightarrow> Some (Inl (state', hist @ [state'], out', Suc n))) \<and>
            (step opts rules (out @ (if verbose opts then [PrintState cur] else [])) cur =
               Some (out', state', end_flag) \<longrightarrow>
               (case find (contains state') hist of
                  Some prev \<Rightarrow>
                    run rules state opts =
                      Some (out', Suc k, Inl (FoundIncreasingSequence prev state'))
                | None \<Rightarrow>
                    reaches rules opts (state, [state], [], 0) (Suc k)
                      (state', hist @ [state'], out', Suc k) \<and>
                    run rules state opts =
                      loop rules opts (state', hist @ [state'], out', Suc k))))"
proof (intro conjI impI)
  from assms show run: "run rules state opts = loop rules opts (state, [state], [], 0)"
    by (simp add: run_def initial_config_def)
  assume r: "reaches rules opts (state, [state], [], 0) k (cur, hist, out, n)"
  from reaches_history[OF r assms]
  have h: "hist \<noteq> []" "hd hist = state" "last hist = cur" "length hist = Suc k" by auto
  then show "hd hist = state" "last hist = cur" "length hist = Suc k" by simp_all
  from reaches_counts[OF r] show n: "n = k" by simp
  let ?out = "out @ (if verbose opts then [PrintState cur] else [])"
  show p: "pass rules opts (cur, hist, out, n) =
              step opts rules ?out cur \<bind>
                (\<lambda>(out', state', end_flag).
                   case find (contains state') hist of
                     Some prev \<Rightarrow> Some (Inr (out', Suc n, Inl (FoundIncreasingSequence prev state')))
                   | None \<Rightarrow> Some (Inl (state', hist @ [state'], out', Suc n)))"
  proof (cases "step opts rules ?out cur")
    case None
    then show ?thesis by (simp add: pass_def)
  next
    case (Some res)
    obtain out' state' e where res: "res = (out', state', e)" by (cases res) auto
    from step_nonneg[OF Some[unfolded res]] have nn: "nonneg state'" .
    have "find (contains state') hist \<noteq> None" if "e"
    proof -
      from Some res that have "state' = counter_add cur empty_counter"
        by (simp add: step_end)
      with h have "check_previous state' hist \<noteq> None"
        by (intro check_previous_last) (auto simp: guard_last)
      with nn show ?thesis by (simp add: check_previous_find)
    qed
    with Some res nn assms show ?thesis
      by (auto simp: pass_def check_previous_find split: option.splits)
  qed
  assume st: "step opts rules ?out cur = Some (out', state', end_flag)"
  from assms r have r0: "reaches rules opts (initial_config state opts) k (cur, hist, out, n)"
    by (simp add: initial_config_def)
  show "case find (contains state') hist of
          Some prev \<Rightarrow>
            run rules state opts = Some (out', Suc k, Inl (FoundIncreasingSequence prev state'))
        | None \<Rightarrow>
            reaches rules opts (state, [state], [], 0) (Suc k)
              (state', hist @ [state'], out', Suc k) \<and>
            run rules state opts = loop rules opts (state', hist @ [state'], out', Suc k)"
  proof (cases "find (contains state') hist")
    case None
    with p st n have "pass rules opts (cur, hist, out, n) =
        Some (Inl (state', hist @ [state'], out', Suc k))"
      by simp
    from reaches_pass[OF r this]
    have r': "reaches rules opts (state, [state], [], 0) (Suc k)
        (state', hist @ [state'], out', Suc k)" .
    from reaches_loop[OF r'] run None r' show ?thesis by simp
  next
    case (Some prev)
    with p st n have "pass rules opts (cur, hist, out, n) =
        Some (Inr (out', Suc k, Inl (FoundIncreasingSequence prev state')))"
      by simp
    from run_ends[OF r0 this] Some show ?thesis by simp
  qed
qed

theorem loop_detection_contract_witness:
  "detect_loops \<lparr>verbose = False, detect_loops = True\<rparr> \<and>
   reaches [(Counter ''a'', Counter ''aa'')] \<lparr>verbose = False, detect_loops = True\<rparr>
     (Counter ''a'', [Counter ''a''], [], 0) 0 (Counter ''a'', [Counter ''a''], [], 0) \<and>
   step \<lparr>verbose = False, detect_loops = True\<rparr> [(Counter ''a'', Counter ''aa'')] []
     (Counter ''a'') = Some ([], Counter ''aa'', False) \<and>
   find (contains (Counter ''aa'')) [Counter ''a''] = Some (Counter ''a'') \<and>
   run [(Counter ''a'', Counter ''aa'')] (Counter ''a'') \<lparr>verbose = False, detect_loops = True\<rparr> =
     Some ([], Suc 0, Inl (FoundIncreasingSequence (Counter ''a'') (Counter ''aa''))) \<and>
   reaches [(Counter ''a'', Counter ''b'')] \<lparr>verbose = False, detect_loops = True\<rparr>
     (Counter ''a'', [Counter ''a''], [], 0) 0 (Counter ''a'', [Counter ''a''], [], 0) \<and>
   step \<lparr>verbose = False, detect_loops = True\<rparr> [(Counter ''a'', Counter ''b'')] []
     (Counter ''a'') = Some ([], Counter ''b'', False) \<and>
   find (contains (Counter ''b'')) [Counter ''a''] = None \<and>
   reaches [(Counter ''a'', Counter ''b'')] \<lparr>verbose = False, detect_loops = True\<rparr>
     (Counter ''a'', [Counter ''a''], [], 0) (Suc 0)
     (Counter ''b'', [Counter ''a'', Counter ''b''], [], Suc 0) \<and>
   run [(Counter ''a'', Counter ''b'')] (Counter ''a'') \<lparr>verbose = False, detect_loops = True\<rparr> =
     loop [(Counter ''a'', Counter ''b'')] \<lparr>verbose = False, detect_loops = True\<rparr>
       (Counter ''b'', [Counter ''a'', Counter ''b''], [], Suc 0)"
proof -
  let ?opts = "\<lparr>verbose = False, detect_loops = True\<rparr>"
  have d: "detect_loops ?opts" by simp
  have f1: "find (contains (Counter ''aa'')) [Counter ''a''] = Some (Counter ''a'')"
    by (simp add: contains_def Counter_apply)
  have f2: "find (contains (Counter ''b'')) [Counter ''a''] = None"
    by (simp add: contains_def Counter_apply)
  have s1: "step ?opts [(Counter ''a'', Counter ''aa'')] [] (Counter ''a'') =
      Some ([], Counter ''aa'', False)"
    by (simp add: step_a_to_aa)
  have s2: "step ?opts [(Counter ''a'', Counter ''b'')] [] (Counter ''a'') =
      Some ([], Counter ''b'', False)"
    by (simp add: step_a_to_b_first)
  have s1': "step ?opts [(Counter ''a'', Counter ''aa'')]
      ([] @ (if verbose ?opts then [PrintState (Counter ''a'')] else [])) (Counter ''a'') =
      Some ([], Counter ''aa'', False)"
    by (simp add: step_a_to_aa)
  have s2': "step ?opts [(Counter ''a'', Counter ''b'')]
      ([] @ (if verbose ?opts then [PrintState (Counter ''a'')] else [])) (Counter ''a'') =
      Some ([], Counter ''b'', False)"
    by (simp add: step_a_to_b_first)
  have r1: "reaches [(Counter ''a'', Counter ''aa'')] ?opts
      (Counter ''a'', [Counter ''a''], [], 0) 0 (Counter ''a'', [Counter ''a''], [], 0)"
    by (rule reaches_here)
  have r2: "reaches [(Counter ''a'', Counter ''b'')] ?opts
      (Counter ''a'', [Counter ''a''], [], 0) 0 (Counter ''a'', [Counter ''a''], [], 0)"
    by (rule reaches_here)
  from loop_detection_contract[OF d, of "[(Counter ''a'', Counter ''aa'')]" "Counter ''a''"
      0 "Counter ''a''" "[Counter ''a'']" "[]" 0 "[]" "Counter ''aa''" False] r1 s1'
  have "case find (contains (Counter ''aa'')) [Counter ''a''] of
          Some prev \<Rightarrow>
            run [(Counter ''a'', Counter ''aa'')] (Counter ''a'') ?opts =
              Some ([], Suc 0, Inl (FoundIncreasingSequence prev (Counter ''aa'')))
        | None \<Rightarrow>
            reaches [(Counter ''a'', Counter ''aa'')] ?opts (Counter ''a'', [Counter ''a''], [], 0)
              (Suc 0) (Counter ''aa'', [Counter ''a''] @ [Counter ''aa''], [], Suc 0) \<and>
            run [(Counter ''a'', Counter ''aa'')] (Counter ''a'') ?opts =
              loop [(Counter ''a'', Counter ''aa'')] ?opts
                (Counter ''aa'', [Counter ''a''] @ [Counter ''aa''], [], Suc 0)"
    by blast
  then have a: "run [(Counter ''a'', Counter ''aa'')] (Counter ''a'') ?opts =
     Some ([], Suc 0, Inl (FoundIncreasingSequence (Counter ''a'') (Counter ''aa'')))"
    by (simp only: f1 option.case)
  from loop_detection_contract[OF d, of "[(Counter ''a'', Counter ''b'')]" "Counter ''a''"
      0 "Counter ''a''" "[Counter ''a'']" "[]" 0 "[]" "Counter ''b''" False] r2 s2'
  have "case find (contains (Counter ''b'')) [Counter ''a''] of
          Some prev \<Rightarrow>
            run [(Counter ''a'', Counter ''b'')] (Counter ''a'') ?opts =
              Some ([], Suc 0, Inl (FoundIncreasingSequence prev (Counter ''b'')))
        | None \<Rightarrow>
            reaches [(Counter ''a'', Counter ''b'')] ?opts (Counter ''a'', [Counter ''a''], [], 0)
              (Suc 0) (Counter ''b'', [Counter ''a''] @ [Counter ''b''], [], Suc 0) \<and>
            run [(Counter ''a'', Counter ''b'')] (Counter ''a'') ?opts =
              loop [(Counter ''a'', Counter ''b'')] ?opts
                (Counter ''b'', [Counter ''a''] @ [Counter ''b''], [], Suc 0)"
    by blast
  then have b: "reaches [(Counter ''a'', Counter ''b'')] ?opts
     (Counter ''a'', [Counter ''a''], [], 0) (Suc 0)
     (Counter ''b'', [Counter ''a'', Counter ''b''], [], Suc 0) \<and>
   run [(Counter ''a'', Counter ''b'')] (Counter ''a'') ?opts =
     loop [(Counter ''a'', Counter ''b'')] ?opts
       (Counter ''b'', [Counter ''a'', Counter ''b''], [], Suc 0)"
    by (simp only: f2 option.case append.simps)
  from d a b s1 s2 f1 f2 r1 r2 show ?thesis by (intro conjI) (simp_all only:)
qed

text \<open>
  C6. For multisets \<open>a\<close> and \<open>b\<close> (the counts of \<open>a\<close> are not negative), if \<open>a\<close>
  contains \<open>b\<close> then adding \<open>b\<close> to \<open>a - b\<close> gives \<open>a\<close> back, for the \<^verbatim>\<open>-\<close> and
  \<^verbatim>\<open>+\<close> of the program.
\<close>

theorem add_subtract_inverse:
  "nonneg a \<Longrightarrow> contains a b \<Longrightarrow> counter_add (counter_sub a b) b = a"
  by (simp add: guard_iff)

theorem add_subtract_inverse_witness:
  "nonneg (Counter ''aab'') \<and> contains (Counter ''aab'') (Counter ''ab'') \<and>
   counter_add (counter_sub (Counter ''aab'') (Counter ''ab'')) (Counter ''ab'') = Counter ''aab''"
  using add_subtract_inverse[of "Counter ''aab''" "Counter ''ab''"]
  by (simp add: nonneg_def contains_def Counter_apply)

text \<open>
  C7. When the program files open and some rule read from them has an empty outgoing
  counter, \<^verbatim>\<open>main\<close> raises "Rules without outgoing component are invalid." whatever
  the other rules, the input and the options are: no pass is made, nothing is printed
  by a pass and standard input is left unread.
\<close>

theorem invalid_rule_before_run:
  assumes "read_rules files input_rules = Inr rules"
    and "\<exists>rule\<in>set rules. fst rule = empty_counter"
  shows "main files input_rules input_state opts =
           Some (input_state, [], 0, Inl RulesWithoutOutgoing)"
proof -
  from assms(2) have "check_rules rules = Some RulesWithoutOutgoing"
    by (simp add: check_rules_Some)
  with assms(1) show ?thesis by (simp add: main_def)
qed

theorem invalid_rule_before_run_witness:
  "read_rules [''prog'' \<mapsto> [''# a rule that takes nothing out'', ''aB ABC'']] [''prog''] =
     Inr [(Counter ''a'', Counter ''b''), (empty_counter, Counter ''abc'')] \<and>
   (\<exists>rule\<in>set [(Counter ''a'', Counter ''b''), (empty_counter, Counter ''abc'')].
      fst rule = empty_counter) \<and>
   main [''prog'' \<mapsto> [''# a rule that takes nothing out'', ''aB ABC'']] [''prog'']
     ''abcde'' \<lparr>verbose = False, detect_loops = False\<rparr> =
     Some (''abcde'', [], 0, Inl RulesWithoutOutgoing)"
  using invalid_rule_before_run[OF read_ABC, of "''abcde''" "\<lparr>verbose = False, detect_loops = False\<rparr>"]
    read_ABC
  by simp

text \<open>
  C8. Two runs from the same rules, the same initial state and the same options,
  each a sequence of passes that ends with a pass that returns or raises, make the
  same number of passes and end the same way, with the same output; it is what
  \<^verbatim>\<open>run\<close> gives.
\<close>

theorem run_deterministic:
  assumes "reaches rules opts (initial_config state opts) k1 c1"
    and "pass rules opts c1 = Some (Inr (out1, n1, r1))"
    and "reaches rules opts (initial_config state opts) k2 c2"
    and "pass rules opts c2 = Some (Inr (out2, n2, r2))"
  shows "r1 = r2 \<and> k1 = k2 \<and> out1 = out2 \<and> run rules state opts = Some (out1, Suc k1, r1)"
  using run_ends[OF assms(1,2)] run_ends[OF assms(3,4)] by simp

theorem run_deterministic_witness:
  "reaches [(Counter ''a'', Counter ''b'')] \<lparr>verbose = False, detect_loops = False\<rparr>
     (initial_config (Counter ''a'') \<lparr>verbose = False, detect_loops = False\<rparr>) (Suc 0)
     (Counter ''b'', [], [], Suc 0) \<and>
   pass [(Counter ''a'', Counter ''b'')] \<lparr>verbose = False, detect_loops = False\<rparr>
     (Counter ''b'', [], [], Suc 0) = Some (Inr ([], Suc (Suc 0), Inr (Counter ''b''))) \<and>
   run [(Counter ''a'', Counter ''b'')] (Counter ''a'') \<lparr>verbose = False, detect_loops = False\<rparr> =
     Some ([], Suc (Suc 0), Inr (Counter ''b''))"
  using run_deterministic[OF reaches_a_to_b pass_a_to_b_second reaches_a_to_b pass_a_to_b_second]
    reaches_a_to_b pass_a_to_b_second
  by simp

text \<open>
  C9. In a run from a state and rules without negative counts, every configuration at
  the head of a pass has a state, a history and printed multisets without negative
  counts; so have the state and \<^verbatim>\<open>to_add\<close> after any number of the rules of a pass, and
  what the run returns or raises. This is not the work of the clipping of \<^verbatim>\<open>-\<close>: the
  inner loop of lines 48 to 56 subtracts exactly when the state has no negative count
  and contains the outgoing multiset, and what it subtracts then is the exact
  difference of the counts. So a call of the loop that returns has applied its rule
  some number \<open>m\<close> of times, the state it leaves is the state it got minus \<open>m\<close> times
  the outgoing multiset, count by count, each of the \<open>m\<close> states it subtracted from
  had no negative count and contained the outgoing multiset, it printed \<open>m\<close> lines
  when \<^verbatim>\<open>verbose\<close> is set, and \<^verbatim>\<open>end\<close> stays true only when \<open>m\<close> is 0. In every pass
  of the run the step is the step of the specification, which subtracts and adds the
  counts without clipping.
\<close>

theorem counts_never_negative:
  assumes "nonneg state" and "rules_nonneg rules"
  shows "(reaches rules opts (initial_config state opts) k (cur, hist, out, n) \<longrightarrow>
            config_nonneg (cur, hist, out, n) \<and>
            (for_rules opts (take i rules) (out0, cur, empty_counter, True) = Some (out', s', t', e')
               \<longrightarrow> nonneg s' \<and> nonneg t') \<and>
            map_option (\<lambda>(out', state', end_flag). (state', \<not> end_flag))
              (step opts rules out0 cur) = spec_step rules cur) \<and>
         (run rules state opts = Some res \<longrightarrow> result_nonneg res) \<and>
         (counter_add (counter_sub s outgoing) outgoing = s \<longrightarrow>
            contains s outgoing \<and> counter_sub s outgoing = subtract s outgoing \<and>
            nonneg (subtract s outgoing)) \<and>
         apply_rule opts outgoing incoming (out1, s, t, e) =
           (if nonneg s \<and> contains s outgoing
            then apply_rule opts outgoing incoming
                   (out1 @ (if verbose opts then [PrintRule outgoing incoming] else []),
                    subtract s outgoing, counter_add t incoming, False)
            else Some (out1, s, t, e)) \<and>
         (apply_rule opts outgoing incoming (out1, s, t, e) = Some (out2, s2, t2, e2) \<longrightarrow>
            (\<exists>m. s2 = (\<lambda>k. s k - int m * outgoing k) \<and>
                 (\<forall>j<m. nonneg (\<lambda>k. s k - int j * outgoing k) \<and>
                         contains (\<lambda>k. s k - int j * outgoing k) outgoing) \<and>
                 out2 = out1 @ (if verbose opts then replicate m (PrintRule outgoing incoming) else []) \<and>
                 e2 = (e \<and> m = 0)))"
proof (intro conjI impI)
  assume r: "reaches rules opts (initial_config state opts) k (cur, hist, out, n)"
  from reaches_nonneg[OF r assms(2) initial_config_nonneg[OF assms(1)]]
  show c: "config_nonneg (cur, hist, out, n)" .
  then have cur: "nonneg cur" by (simp add: config_nonneg_def)
  from step_spec_step[OF cur rules_nonneg_snd[OF assms(2)]]
  show "map_option (\<lambda>(out', state', end_flag). (state', \<not> end_flag))
          (step opts rules out0 cur) = spec_step rules cur" .
  assume f: "for_rules opts (take i rules) (out0, cur, empty_counter, True) = Some (out', s', t', e')"
  from for_rules_nonneg[OF f cur nonneg_empty_counter
      rules_nonneg_snd[OF rules_nonneg_take[OF assms(2)]]]
  show "nonneg s'" "nonneg t'" by simp_all
next
  assume "run rules state opts = Some res"
  from run_nonneg[OF this assms] show "result_nonneg res" .
next
  assume g: "counter_add (counter_sub s outgoing) outgoing = s"
  then show c: "contains s outgoing" by (simp add: guard_iff)
  then show "counter_sub s outgoing = subtract s outgoing" by (rule counter_sub_exact)
  from c show "nonneg (subtract s outgoing)" by (rule nonneg_subtract)
next
  show "apply_rule opts outgoing incoming (out1, s, t, e) =
           (if nonneg s \<and> contains s outgoing
            then apply_rule opts outgoing incoming
                   (out1 @ (if verbose opts then [PrintRule outgoing incoming] else []),
                    subtract s outgoing, counter_add t incoming, False)
            else Some (out1, s, t, e))"
    by (rule apply_rule_unfold)
next
  assume "apply_rule opts outgoing incoming (out1, s, t, e) = Some (out2, s2, t2, e2)"
  then show "\<exists>m. s2 = (\<lambda>k. s k - int m * outgoing k) \<and>
                 (\<forall>j<m. nonneg (\<lambda>k. s k - int j * outgoing k) \<and>
                         contains (\<lambda>k. s k - int j * outgoing k) outgoing) \<and>
                 out2 = out1 @ (if verbose opts then replicate m (PrintRule outgoing incoming) else []) \<and>
                 e2 = (e \<and> m = 0)"
    by (rule apply_rule_exact)
qed

theorem counts_never_negative_witness:
  "nonneg (Counter ''a'') \<and> rules_nonneg [(Counter ''a'', Counter ''b'')] \<and>
   reaches [(Counter ''a'', Counter ''b'')] \<lparr>verbose = False, detect_loops = False\<rparr>
     (initial_config (Counter ''a'') \<lparr>verbose = False, detect_loops = False\<rparr>) (Suc 0)
     (Counter ''b'', [], [], Suc 0) \<and>
   config_nonneg (Counter ''b'', [], [], Suc 0) \<and>
   run [(Counter ''a'', Counter ''b'')] (Counter ''a'') \<lparr>verbose = False, detect_loops = False\<rparr> =
     Some ([], 2, Inr (Counter ''b'')) \<and>
   result_nonneg ([], 2, Inr (Counter ''b'')) \<and>
   counter_add (counter_sub (Counter ''a'') (Counter ''a'')) (Counter ''a'') = Counter ''a'' \<and>
   contains (Counter ''a'') (Counter ''a'') \<and>
   counter_sub (Counter ''a'') (Counter ''a'') = subtract (Counter ''a'') (Counter ''a'') \<and>
   apply_rule \<lparr>verbose = False, detect_loops = False\<rparr> (Counter ''a'') (Counter ''b'')
     ([], Counter ''a'', empty_counter, True) = Some ([], empty_counter, Counter ''b'', False) \<and>
   (\<exists>m. empty_counter = (\<lambda>k. Counter ''a'' k - int m * Counter ''a'' k) \<and>
        (\<forall>j<m. nonneg (\<lambda>k. Counter ''a'' k - int j * Counter ''a'' k) \<and>
                contains (\<lambda>k. Counter ''a'' k - int j * Counter ''a'' k) (Counter ''a'')) \<and>
        False = (True \<and> m = 0))"
proof -
  have rn: "rules_nonneg [(Counter ''a'', Counter ''b'')]"
    by (simp add: rules_nonneg_def nonneg_Counter)
  have g: "counter_add (counter_sub (Counter ''a'') (Counter ''a'')) (Counter ''a'') = Counter ''a''"
    by (simp add: counter_eval)
  note t = counts_never_negative[OF nonneg_Counter rn,
      where opts = "\<lparr>verbose = False, detect_loops = False\<rparr>" and k = "Suc 0"
        and cur = "Counter ''b''" and hist = "[]" and out = "[]" and n = "Suc 0"
        and res = "([], 2, Inr (Counter ''b''))" and s = "Counter ''a''"
        and outgoing = "Counter ''a''" and incoming = "Counter ''b''" and ?out1.0 = "[]"
        and t = empty_counter and e = True and ?out2.0 = "[]" and ?s2.0 = empty_counter
        and ?t2.0 = "Counter ''b''" and ?e2.0 = False]
  from t apply_rule_a_once
  have "\<exists>m. empty_counter = (\<lambda>k. Counter ''a'' k - int m * Counter ''a'' k) \<and>
        (\<forall>j<m. nonneg (\<lambda>k. Counter ''a'' k - int j * Counter ''a'' k) \<and>
                contains (\<lambda>k. Counter ''a'' k - int j * Counter ''a'' k) (Counter ''a'')) \<and>
        False = (True \<and> m = 0)"
    by simp
  moreover from t reaches_a_to_b run_a_to_b[of False] g rn
  have "config_nonneg (Counter ''b'', [], [], Suc 0) \<and>
        result_nonneg ([], 2, Inr (Counter ''b'')) \<and>
        contains (Counter ''a'') (Counter ''a'') \<and>
        counter_sub (Counter ''a'') (Counter ''a'') = subtract (Counter ''a'') (Counter ''a'')"
    by simp
  ultimately show ?thesis
    using reaches_a_to_b run_a_to_b[of False] g rn apply_rule_a_once
    by (simp add: nonneg_Counter)
qed

text \<open>
  C10. The word \<^verbatim>\<open>aaB\<close> is the rule that takes two a out and brings one b in, and
  the input "aaaa" is the state of four a. The first step applies the rule twice and
  leaves two b, the second step applies nothing, and the run returns two b after two
  passes, without loop detection; the only key of that state is b, and it is printed
  as "bb".
\<close>

theorem scenario_B:
  "rule_of_word ''aaB'' = (Counter ''aa'', Counter ''b'') \<and>
   initial_state ''aaaa'' = Counter ''aaaa'' \<and>
   step \<lparr>verbose = True, detect_loops = False\<rparr> [(Counter ''aa'', Counter ''b'')] [] (Counter ''aaaa'') =
     Some ([PrintRule (Counter ''aa'') (Counter ''b''), PrintRule (Counter ''aa'') (Counter ''b'')],
           Counter ''bb'', False) \<and>
   step \<lparr>verbose = True, detect_loops = False\<rparr> [(Counter ''aa'', Counter ''b'')] [] (Counter ''bb'') =
     Some ([], Counter ''bb'', True) \<and>
   run [(Counter ''aa'', Counter ''b'')] (Counter ''aaaa'') \<lparr>verbose = True, detect_loops = False\<rparr> =
     Some ([PrintState (Counter ''aaaa''), PrintRule (Counter ''aa'') (Counter ''b''),
            PrintRule (Counter ''aa'') (Counter ''b''), PrintState (Counter ''bb'')],
           2, Inr (Counter ''bb'')) \<and>
   main [''prog'' \<mapsto> [''aaB'']] [''prog''] ''aaaa'' \<lparr>verbose = False, detect_loops = False\<rparr> =
     Some ([], [], 2, Inr (Counter ''bb'')) \<and>
   {k. 0 < Counter ''bb'' k} = {CHR ''b''} \<and>
   elements ''b'' (Counter ''bb'') = ''bb''"
proof -
  have "{k. 0 < Counter ''bb'' k} = {CHR ''b''}"
    by (auto simp: Counter_apply split: if_splits)
  moreover have "elements ''b'' (Counter ''bb'') = ''bb''"
    by (simp add: elements_def Counter_apply numeral_2_eq_2)
  moreover have "main [''prog'' \<mapsto> [''aaB'']] [''prog''] ''aaaa'' \<lparr>verbose = False, detect_loops = False\<rparr> =
     Some ([], [], 2, Inr (Counter ''bb''))"
    using run_aa_to_b[of False] unfolding main_def read_aaB
    by (simp add: initial_aaaa not_empty_aa)
  ultimately show ?thesis
    using run_aa_to_b[of True]
    by (simp add: rule_aaB initial_aaaa step_aa_to_b_first step_aa_to_b_second)
qed

end
